theory Spec2Isabelle
  imports Main "HOL-Library.Word"
begin

unbundle bit_operations_syntax

section \<open>Data model of \<^verbatim>\<open>chafa-symbol-map.c\<close>\<close>

text \<open>
  \<^verbatim>\<open>gunichar\<close> and the enum \<^verbatim>\<open>ChafaSymbolTags\<close> are 32-bit values. Of a
  \<^verbatim>\<open>ChafaSymbol\<close> the file reads the code point \<^verbatim>\<open>c\<close> and the tag bit mask
  \<^verbatim>\<open>sc\<close>; the struct is declared in a private header together with glyph data that
  this file never looks at.
\<close>

type_synonym gunichar = "32 word"

type_synonym ChafaSymbolTags = "32 word"

record ChafaSymbol =
  c :: gunichar
  sc :: ChafaSymbolTags

text \<open>
  The constants of the enum \<^verbatim>\<open>ChafaSymbolTags\<close> are declared in \<^verbatim>\<open>chafa.h\<close>. The
  tag table of \<^verbatim>\<open>parse_symbol_tag\<close> names them; their bit values are a parameter
  \<open>bits\<close> of the model.
\<close>

datatype ChafaSymbolTag =
    CHAFA_SYMBOL_TAG_NONE
  | CHAFA_SYMBOL_TAG_SPACE
  | CHAFA_SYMBOL_TAG_SOLID
  | CHAFA_SYMBOL_TAG_STIPPLE
  | CHAFA_SYMBOL_TAG_BLOCK
  | CHAFA_SYMBOL_TAG_BORDER
  | CHAFA_SYMBOL_TAG_DIAGONAL
  | CHAFA_SYMBOL_TAG_DOT
  | CHAFA_SYMBOL_TAG_QUAD
  | CHAFA_SYMBOL_TAG_HHALF
  | CHAFA_SYMBOL_TAG_VHALF
  | CHAFA_SYMBOL_TAG_HALF
  | CHAFA_SYMBOL_TAG_INVERTED
  | CHAFA_SYMBOL_TAG_BRAILLE
  | CHAFA_SYMBOL_TAG_ALL

type_synonym tag_bits = "ChafaSymbolTag \<Rightarrow> ChafaSymbolTags"

text \<open>
  A \<^verbatim>\<open>GError\<close> of this file always has domain \<^verbatim>\<open>G_OPTION_ERROR\<close> and code
  \<^verbatim>\<open>G_OPTION_ERROR_BAD_VALUE\<close>; the model keeps the message.
\<close>

datatype GError = G_OPTION_ERROR_BAD_VALUE string

section \<open>C strings\<close>

text \<open>
  A C string is the list of its bytes before the terminating NUL, so \<^verbatim>\<open>*p == 0\<close> is
  \<open>p = []\<close> and \<^verbatim>\<open>p + n\<close> is \<open>drop n p\<close>. \<^verbatim>\<open>strspn\<close> is the length of the longest
  prefix made of bytes of \<open>accept\<close>.
\<close>

definition strspn :: "string \<Rightarrow> string \<Rightarrow> nat" where
  "strspn s accept = length (takeWhile (\<lambda>ch. ch \<in> set accept) s)"

text \<open>\<^verbatim>\<open>(gint) (guchar) *s\<close>: the byte under the pointer, 0 at the end of the string.\<close>

definition deref :: "string \<Rightarrow> int" where
  "deref s = (case s of [] \<Rightarrow> 0 | ch # _ \<Rightarrow> of_char ch)"

text \<open>GLib's \<^verbatim>\<open>ISUPPER\<close> and \<^verbatim>\<open>TOLOWER\<close> (ASCII only).\<close>

definition ISUPPER :: "char \<Rightarrow> bool" where
  "ISUPPER ch = ((of_char CHR ''A'' :: int) \<le> of_char ch \<and> (of_char ch :: int) \<le> of_char CHR ''Z'')"

definition TOLOWER :: "char \<Rightarrow> int" where
  "TOLOWER ch = (if ISUPPER ch then of_char ch - of_char CHR ''A'' + of_char CHR ''a'' else of_char ch)"

text \<open>
  GLib's \<^verbatim>\<open>g_ascii_strncasecmp (s1, s2, n)\<close>: while \<open>n\<close> is not used up and neither
  string has ended the lowered bytes are compared; at the end of either string the raw
  bytes are.
\<close>

fun g_ascii_strncasecmp :: "string \<Rightarrow> string \<Rightarrow> nat \<Rightarrow> int" where
  "g_ascii_strncasecmp (a # s1) (b # s2) n =
     (if n = 0 then 0
      else if TOLOWER a \<noteq> TOLOWER b then TOLOWER a - TOLOWER b
      else g_ascii_strncasecmp s1 s2 (n - 1))"
| "g_ascii_strncasecmp s1 s2 n = (if n = 0 then 0 else deref s1 - deref s2)"

section \<open>The tag vocabulary: \<^verbatim>\<open>parse_symbol_tag\<close>\<close>

text \<open>The local table \<^verbatim>\<open>map\<close> of \<^verbatim>\<open>parse_symbol_tag\<close>, without its NULL end mark.\<close>

definition SymMapping_map :: "(string \<times> ChafaSymbolTag) list" where
  "SymMapping_map =
    [ (''all'', CHAFA_SYMBOL_TAG_ALL),
      (''none'', CHAFA_SYMBOL_TAG_NONE),
      (''space'', CHAFA_SYMBOL_TAG_SPACE),
      (''solid'', CHAFA_SYMBOL_TAG_SOLID),
      (''stipple'', CHAFA_SYMBOL_TAG_STIPPLE),
      (''block'', CHAFA_SYMBOL_TAG_BLOCK),
      (''border'', CHAFA_SYMBOL_TAG_BORDER),
      (''diagonal'', CHAFA_SYMBOL_TAG_DIAGONAL),
      (''dot'', CHAFA_SYMBOL_TAG_DOT),
      (''quad'', CHAFA_SYMBOL_TAG_QUAD),
      (''half'', CHAFA_SYMBOL_TAG_HALF),
      (''hhalf'', CHAFA_SYMBOL_TAG_HHALF),
      (''vhalf'', CHAFA_SYMBOL_TAG_VHALF),
      (''inverted'', CHAFA_SYMBOL_TAG_INVERTED),
      (''braille'', CHAFA_SYMBOL_TAG_BRAILLE) ]"

text \<open>
  The \<^verbatim>\<open>for\<close> loop of \<^verbatim>\<open>parse_symbol_tag\<close> over the table: the first entry whose
  name compares equal to \<open>name\<close> on \<open>len\<close> bytes wins.
\<close>

fun parse_symbol_tag_loop :: "(string \<times> ChafaSymbolTag) list \<Rightarrow> string \<Rightarrow> nat \<Rightarrow> ChafaSymbolTag option" where
  "parse_symbol_tag_loop [] name len = None"
| "parse_symbol_tag_loop ((nm, t) # rest) name len =
     (if g_ascii_strncasecmp nm name len = 0 then Some t
      else parse_symbol_tag_loop rest name len)"

text \<open>
  \<^verbatim>\<open>parse_symbol_tag (name, len, &sc, error)\<close>: \<open>name\<close> is the string that starts at
  the pointer (the rest of the selector string), \<open>len\<close> the length of the slice.
  \<open>Inr sc\<close> is the return value TRUE with \<^verbatim>\<open>*sc_out = sc\<close>, \<open>Inl e\<close> the return value
  FALSE with the error \<open>e\<close> set; its message prints the slice with \<^verbatim>\<open>%.*s\<close>.
\<close>

definition parse_symbol_tag :: "tag_bits \<Rightarrow> string \<Rightarrow> nat \<Rightarrow> GError + ChafaSymbolTags" where
  "parse_symbol_tag bits name len =
     (case parse_symbol_tag_loop SymMapping_map name len of
        Some t \<Rightarrow> Inr (bits t)
      | None \<Rightarrow> Inl (G_OPTION_ERROR_BAD_VALUE
                       (''Unrecognized symbol tag '' @ [CHR 0x27] @ take len name @ [CHR 0x27] @ ''.'')))"

section \<open>The heap: hash tables and symbol arrays\<close>

text \<open>
  \<^verbatim>\<open>desired_symbols\<close> points to a GLib hash table used as a set of catalogue indices
  (\<^verbatim>\<open>GINT_TO_POINTER (i)\<close> keys), \<^verbatim>\<open>symbols\<close> to an array obtained from \<^verbatim>\<open>g_new\<close>.
  Both live in an explicit store, so that two pointers to the same table are visible as
  such; \<open>None\<close> is the NULL pointer. The allocator hands out \<open>next_addr\<close> and
  never hands out an address twice. What C leaves undefined is a \<open>fault\<close>.
\<close>

type_synonym addr = nat

datatype fault = NullPointer | InvalidPointer | OutOfBounds

record heap =
  tables :: "addr \<rightharpoonup> nat set"
  arrays :: "addr \<rightharpoonup> ChafaSymbol list"
  next_addr :: addr

record ChafaSymbolMap =
  refs :: int
  need_rebuild :: bool
  desired_symbols :: "addr option"
  symbols :: "addr option"
  n_symbols :: nat

subsection \<open>GLib\<close>

definition g_hash_table_new :: "heap \<Rightarrow> addr \<times> heap" where
  "g_hash_table_new h =
     (next_addr h, h\<lparr>tables := (tables h)(next_addr h \<mapsto> {}), next_addr := Suc (next_addr h)\<rparr>)"

text \<open>Every table of this file holds one reference, so \<^verbatim>\<open>g_hash_table_unref\<close> frees it.\<close>

definition g_hash_table_unref :: "addr \<Rightarrow> heap \<Rightarrow> fault + heap" where
  "g_hash_table_unref a h =
     (case tables h a of
        None \<Rightarrow> Inl InvalidPointer
      | Some S \<Rightarrow> Inr (h\<lparr>tables := (tables h)(a := None)\<rparr>))"

definition g_hash_table_add :: "addr \<Rightarrow> nat \<Rightarrow> heap \<Rightarrow> fault + heap" where
  "g_hash_table_add a k h =
     (case tables h a of
        None \<Rightarrow> Inl InvalidPointer
      | Some S \<Rightarrow> Inr (h\<lparr>tables := (tables h)(a \<mapsto> insert k S)\<rparr>))"

text \<open>The tables are sets: the value stored with a key is never read.\<close>

definition g_hash_table_insert :: "addr \<Rightarrow> nat \<Rightarrow> heap \<Rightarrow> fault + heap" where
  "g_hash_table_insert a k h = g_hash_table_add a k h"

definition g_hash_table_remove :: "addr \<Rightarrow> nat \<Rightarrow> heap \<Rightarrow> fault + heap" where
  "g_hash_table_remove a k h =
     (case tables h a of
        None \<Rightarrow> Inl InvalidPointer
      | Some S \<Rightarrow> Inr (h\<lparr>tables := (tables h)(a \<mapsto> S - {k})\<rparr>))"

text \<open>
  \<^verbatim>\<open>g_hash_table_size (NULL)\<close> returns 0 (\<^verbatim>\<open>g_return_val_if_fail\<close>).
\<close>

definition g_hash_table_size :: "addr option \<Rightarrow> heap \<Rightarrow> fault + nat" where
  "g_hash_table_size p h =
     (case p of
        None \<Rightarrow> Inr 0
      | Some a \<Rightarrow> (case tables h a of None \<Rightarrow> Inl InvalidPointer | Some S \<Rightarrow> Inr (card S)))"

text \<open>
  The keys of a table in the order a \<^verbatim>\<open>GHashTableIter\<close> returns them. GLib leaves the
  order open; the model takes the ascending one.
\<close>

definition g_hash_table_iter :: "nat set \<Rightarrow> nat list" where
  "g_hash_table_iter S = sorted_list_of_set S"

definition g_new_array :: "ChafaSymbol list \<Rightarrow> heap \<Rightarrow> addr \<times> heap" where
  "g_new_array xs h =
     (next_addr h, h\<lparr>arrays := (arrays h)(next_addr h \<mapsto> xs), next_addr := Suc (next_addr h)\<rparr>)"

text \<open>\<^verbatim>\<open>g_free (NULL)\<close> does nothing.\<close>

definition g_free :: "addr option \<Rightarrow> heap \<Rightarrow> fault + heap" where
  "g_free p h =
     (case p of
        None \<Rightarrow> Inr h
      | Some a \<Rightarrow> (case arrays h a of
                     None \<Rightarrow> Inl InvalidPointer
                   | Some xs \<Rightarrow> Inr (h\<lparr>arrays := (arrays h)(a := None)\<rparr>)))"

text \<open>libc's \<^verbatim>\<open>qsort\<close> with \<^verbatim>\<open>compare_symbols\<close>, which orders by the code point.\<close>

definition compare_symbols :: "ChafaSymbol \<Rightarrow> ChafaSymbol \<Rightarrow> int" where
  "compare_symbols a_sym b_sym =
     (if c a_sym < c b_sym then - 1 else if c a_sym > c b_sym then 1 else 0)"

fun qsort_insert :: "ChafaSymbol \<Rightarrow> ChafaSymbol list \<Rightarrow> ChafaSymbol list" where
  "qsort_insert x [] = [x]"
| "qsort_insert x (y # ys) =
     (if compare_symbols x y \<le> 0 then x # y # ys else y # qsort_insert x ys)"

definition qsort :: "ChafaSymbol list \<Rightarrow> ChafaSymbol list" where
  "qsort xs = foldr qsort_insert xs []"

section \<open>Private functions\<close>

text \<open>
  The \<^verbatim>\<open>while\<close> loop of \<^verbatim>\<open>copy_hash_table\<close> over the keys the iterator returns.
\<close>

fun copy_hash_table_loop :: "addr \<Rightarrow> nat list \<Rightarrow> heap \<Rightarrow> fault + heap" where
  "copy_hash_table_loop dest [] h = Inr h"
| "copy_hash_table_loop dest (key # keys) h =
     (case g_hash_table_insert dest key h of
        Inl f \<Rightarrow> Inl f
      | Inr h' \<Rightarrow> copy_hash_table_loop dest keys h')"

text \<open>
  \<^verbatim>\<open>g_hash_table_iter_init\<close> on NULL leaves the iterator uninitialised and
  \<^verbatim>\<open>g_hash_table_iter_next\<close> then reads through it: a fault.
\<close>

definition copy_hash_table :: "addr option \<Rightarrow> heap \<Rightarrow> fault + (addr \<times> heap)" where
  "copy_hash_table src h =
     (case g_hash_table_new h of
        (dest, h1) \<Rightarrow>
          (case src of
             None \<Rightarrow> Inl NullPointer
           | Some a \<Rightarrow>
               (case tables h1 a of
                  None \<Rightarrow> Inl InvalidPointer
                | Some S \<Rightarrow>
                    (case copy_hash_table_loop dest (g_hash_table_iter S) h1 of
                       Inl f \<Rightarrow> Inl f
                     | Inr h2 \<Rightarrow> Inr (dest, h2)))))"

text \<open>
  The global \<^verbatim>\<open>chafa_symbols\<close> is the parameter \<open>cat\<close>: the array with its
  zero-codepoint sentinel. The \<^verbatim>\<open>for\<close> loops of \<^verbatim>\<open>add_by_tags\<close> and
  \<^verbatim>\<open>remove_by_tags\<close> run from index \<open>i\<close> over the rest of the array; reading past the
  array is a fault.
\<close>

fun add_by_tags_loop :: "ChafaSymbol list \<Rightarrow> nat \<Rightarrow> addr \<Rightarrow> ChafaSymbolTags \<Rightarrow> heap \<Rightarrow> fault + heap" where
  "add_by_tags_loop [] i sym_ht tags h = Inl OutOfBounds"
| "add_by_tags_loop (s # ss) i sym_ht tags h =
     (if c s = 0 then Inr h
      else if sc s AND tags \<noteq> 0 then
        (case g_hash_table_add sym_ht i h of
           Inl f \<Rightarrow> Inl f
         | Inr h' \<Rightarrow> add_by_tags_loop ss (Suc i) sym_ht tags h')
      else add_by_tags_loop ss (Suc i) sym_ht tags h)"

definition add_by_tags :: "ChafaSymbol list \<Rightarrow> addr \<Rightarrow> ChafaSymbolTags \<Rightarrow> heap \<Rightarrow> fault + heap" where
  "add_by_tags cat sym_ht tags h = add_by_tags_loop cat 0 sym_ht tags h"

fun remove_by_tags_loop :: "ChafaSymbol list \<Rightarrow> nat \<Rightarrow> addr \<Rightarrow> ChafaSymbolTags \<Rightarrow> heap \<Rightarrow> fault + heap" where
  "remove_by_tags_loop [] i sym_ht tags h = Inl OutOfBounds"
| "remove_by_tags_loop (s # ss) i sym_ht tags h =
     (if c s = 0 then Inr h
      else if sc s AND tags \<noteq> 0 then
        (case g_hash_table_remove sym_ht i h of
           Inl f \<Rightarrow> Inl f
         | Inr h' \<Rightarrow> remove_by_tags_loop ss (Suc i) sym_ht tags h')
      else remove_by_tags_loop ss (Suc i) sym_ht tags h)"

definition remove_by_tags :: "ChafaSymbol list \<Rightarrow> addr \<Rightarrow> ChafaSymbolTags \<Rightarrow> heap \<Rightarrow> fault + heap" where
  "remove_by_tags cat sym_ht tags h = remove_by_tags_loop cat 0 sym_ht tags h"

text \<open>The accept set of the \<^verbatim>\<open>strspn\<close> call that measures a tag name.\<close>

definition ascii_letters :: string where
  "ascii_letters = ''abcdefghijklmnopqrstuvwxyzABCDEFGHIJKLMNOPQRSTUVWXYZ''"

definition syntax_error :: GError where
  "syntax_error = G_OPTION_ERROR_BAD_VALUE ''Syntax error in symbol tag selectors.''"

text \<open>
  The \<^verbatim>\<open>while\<close> loop of \<^verbatim>\<open>parse_selectors\<close>, on the rest \<open>p0\<close> of the string and
  the locals \<^verbatim>\<open>is_add\<close>, \<^verbatim>\<open>is_remove\<close> and \<^verbatim>\<open>new_syms\<close>. It ends with the error
  set and \<^verbatim>\<open>goto out\<close> (\<open>Some e\<close>) or by leaving the loop (\<open>None\<close>).
\<close>

function parse_selectors_loop ::
  "ChafaSymbol list \<Rightarrow> tag_bits \<Rightarrow> ChafaSymbolMap \<Rightarrow> string \<Rightarrow> bool \<Rightarrow> bool \<Rightarrow> addr option \<Rightarrow> heap
     \<Rightarrow> fault + (GError option \<times> addr option \<times> heap)" where
  "parse_selectors_loop cat bits symbol_map p0 is_add is_remove new_syms h =
     (if p0 = [] then Inr (None, new_syms, h)
      else
        let p1 = drop (strspn p0 '' ,'') p0 in
        if p1 = [] then Inr (None, new_syms, h)
        else
          let is_add1 = (if hd p1 = CHR ''-'' then False else if hd p1 = CHR ''+'' then True else is_add);
              is_remove1 = (if hd p1 = CHR ''-'' then True else if hd p1 = CHR ''+'' then False else is_remove);
              p2 = (if hd p1 = CHR ''-'' \<or> hd p1 = CHR ''+'' then tl p1 else p1);
              p3 = drop (strspn p2 '' '') p2
          in
          if p3 = [] then Inr (None, new_syms, h)
          else
            let n = strspn p3 ascii_letters in
            if n = 0 then Inr (Some syntax_error, new_syms, h)
            else
              (case parse_symbol_tag bits p3 n of
                 Inl e \<Rightarrow> Inr (Some e, new_syms, h)
               | Inr tag \<Rightarrow>
                   if is_add1 then
                     (case (case new_syms of
                              None \<Rightarrow> copy_hash_table (desired_symbols symbol_map) h
                            | Some a \<Rightarrow> Inr (a, h)) of
                        Inl f \<Rightarrow> Inl f
                      | Inr (a, h1) \<Rightarrow>
                          (case add_by_tags cat a tag h1 of
                             Inl f \<Rightarrow> Inl f
                           | Inr h2 \<Rightarrow>
                               parse_selectors_loop cat bits symbol_map (drop n p3) is_add1 is_remove1 (Some a) h2))
                   else if is_remove1 then
                     (case (case new_syms of
                              None \<Rightarrow> copy_hash_table (desired_symbols symbol_map) h
                            | Some a \<Rightarrow> Inr (a, h)) of
                        Inl f \<Rightarrow> Inl f
                      | Inr (a, h1) \<Rightarrow>
                          (case remove_by_tags cat a tag h1 of
                             Inl f \<Rightarrow> Inl f
                           | Inr h2 \<Rightarrow>
                               parse_selectors_loop cat bits symbol_map (drop n p3) is_add1 is_remove1 (Some a) h2))
                   else
                     (case (case new_syms of
                              None \<Rightarrow> Inr h
                            | Some a \<Rightarrow> g_hash_table_unref a h) of
                        Inl f \<Rightarrow> Inl f
                      | Inr h1 \<Rightarrow>
                          (case g_hash_table_new h1 of
                             (a, h2) \<Rightarrow>
                               (case add_by_tags cat a tag h2 of
                                  Inl f \<Rightarrow> Inl f
                                | Inr h3 \<Rightarrow>
                                    parse_selectors_loop cat bits symbol_map (drop n p3) True is_remove1 (Some a) h3)))))"
  by pat_completeness auto
termination
  apply (relation "measure (\<lambda>(cat, bits, symbol_map, p0, is_add, is_remove, new_syms, h). length p0)")
  apply simp
  apply (auto simp: strspn_def)
  done

text \<open>
  \<^verbatim>\<open>parse_selectors\<close>: the loop, then the commit, then the label \<^verbatim>\<open>out\<close>. The local
  \<^verbatim>\<open>result\<close> is initialised to TRUE and only ever assigned TRUE, so TRUE is what
  both exits return. The result is the return value, the error set (if any), the
  symbol map and the heap.
\<close>

definition parse_selectors ::
  "ChafaSymbol list \<Rightarrow> tag_bits \<Rightarrow> ChafaSymbolMap \<Rightarrow> string \<Rightarrow> heap
     \<Rightarrow> fault + (bool \<times> GError option \<times> ChafaSymbolMap \<times> heap)" where
  "parse_selectors cat bits symbol_map selectors h =
     (case parse_selectors_loop cat bits symbol_map selectors False False None h of
        Inl f \<Rightarrow> Inl f
      | Inr (Some e, new_syms, h1) \<Rightarrow>
          (case (case new_syms of None \<Rightarrow> Inr h1 | Some a \<Rightarrow> g_hash_table_unref a h1) of
             Inl f \<Rightarrow> Inl f
           | Inr h2 \<Rightarrow> Inr (True, Some e, symbol_map, h2))
      | Inr (None, new_syms, h1) \<Rightarrow>
          (case (case desired_symbols symbol_map of
                   None \<Rightarrow> Inr h1
                 | Some a \<Rightarrow> g_hash_table_unref a h1) of
             Inl f \<Rightarrow> Inl f
           | Inr h2 \<Rightarrow>
               Inr (True, None, symbol_map\<lparr>desired_symbols := new_syms, need_rebuild := True\<rparr>, h2)))"

text \<open>
  \<^verbatim>\<open>rebuild_symbols\<close>. The new array holds the catalogue entries of the keys in
  iteration order, sorted by \<^verbatim>\<open>qsort\<close>, and a zeroed entry after them.
\<close>

definition rebuild_symbols ::
  "ChafaSymbol list \<Rightarrow> ChafaSymbolMap \<Rightarrow> heap \<Rightarrow> fault + (ChafaSymbolMap \<times> heap)" where
  "rebuild_symbols cat symbol_map h =
     (case g_free (symbols symbol_map) h of
        Inl f \<Rightarrow> Inl f
      | Inr h1 \<Rightarrow>
          (case g_hash_table_size (desired_symbols symbol_map) h1 of
             Inl f \<Rightarrow> Inl f
           | Inr n \<Rightarrow>
               (case desired_symbols symbol_map of
                  None \<Rightarrow>
                    (case g_new_array [\<lparr>c = 0, sc = 0\<rparr>] h1 of
                       (a, h2) \<Rightarrow>
                         Inr (symbol_map\<lparr>n_symbols := n, symbols := Some a, need_rebuild := False\<rparr>, h2))
                | Some t \<Rightarrow>
                    (case tables h1 t of
                       None \<Rightarrow> Inl InvalidPointer
                     | Some S \<Rightarrow>
                         if \<exists>src_index \<in> set (g_hash_table_iter S). length cat \<le> src_index
                         then Inl OutOfBounds
                         else
                           (case g_new_array
                                   (qsort (map (\<lambda>src_index. cat ! src_index) (g_hash_table_iter S))
                                      @ [\<lparr>c = 0, sc = 0\<rparr>]) h1 of
                              (a, h2) \<Rightarrow>
                                Inr (symbol_map\<lparr>n_symbols := n, symbols := Some a, need_rebuild := False\<rparr>,
                                     h2))))))"

section \<open>Functions of the library\<close>

text \<open>\<^verbatim>\<open>chafa_symbol_map_init\<close>: the struct is zeroed and holds one reference.\<close>

definition chafa_symbol_map_init :: ChafaSymbolMap where
  "chafa_symbol_map_init =
     \<lparr>refs = 1, need_rebuild = False, desired_symbols = None, symbols = None, n_symbols = 0\<rparr>"

text \<open>
  \<^verbatim>\<open>chafa_symbol_map_copy_contents (dest, src)\<close>: \<^verbatim>\<open>memcpy\<close> overwrites all of
  \<^verbatim>\<open>*dest\<close>, so the new value of \<^verbatim>\<open>*dest\<close> depends on \<^verbatim>\<open>*src\<close> and the heap only.
\<close>

definition chafa_symbol_map_copy_contents ::
  "ChafaSymbolMap \<Rightarrow> heap \<Rightarrow> fault + (ChafaSymbolMap \<times> heap)" where
  "chafa_symbol_map_copy_contents src h =
     (case desired_symbols src of
        None \<Rightarrow> Inr (src\<lparr>symbols := None, need_rebuild := True, refs := 1\<rparr>, h)
      | Some t \<Rightarrow>
          (case copy_hash_table (Some t) h of
             Inl f \<Rightarrow> Inl f
           | Inr (a, h1) \<Rightarrow>
               Inr (src\<lparr>desired_symbols := Some a, symbols := None, need_rebuild := True, refs := 1\<rparr>,
                    h1)))"

definition chafa_symbol_map_prepare ::
  "ChafaSymbol list \<Rightarrow> ChafaSymbolMap \<Rightarrow> heap \<Rightarrow> fault + (ChafaSymbolMap \<times> heap)" where
  "chafa_symbol_map_prepare cat symbol_map h =
     (if \<not> need_rebuild symbol_map then Inr (symbol_map, h)
      else rebuild_symbols cat symbol_map h)"



text \<open>
  \<^verbatim>\<open>chafa_symbol_map_add_by_tags\<close> and \<^verbatim>\<open>chafa_symbol_map_remove_by_tags\<close>; with
  \<^verbatim>\<open>refs <= 0\<close> they return at once.
\<close>

definition chafa_symbol_map_add_by_tags ::
  "ChafaSymbol list \<Rightarrow> ChafaSymbolMap \<Rightarrow> ChafaSymbolTags \<Rightarrow> heap \<Rightarrow> fault + (ChafaSymbolMap \<times> heap)" where
  "chafa_symbol_map_add_by_tags cat symbol_map tags h =
     (if \<not> refs symbol_map > 0 then Inr (symbol_map, h)
      else
        (case (case desired_symbols symbol_map of
                 None \<Rightarrow> g_hash_table_new h
               | Some a \<Rightarrow> (a, h)) of
           (a, h1) \<Rightarrow>
             (case add_by_tags cat a tags h1 of
                Inl f \<Rightarrow> Inl f
              | Inr h2 \<Rightarrow> Inr (symbol_map\<lparr>desired_symbols := Some a, need_rebuild := True\<rparr>, h2))))"

definition chafa_symbol_map_remove_by_tags ::
  "ChafaSymbol list \<Rightarrow> ChafaSymbolMap \<Rightarrow> ChafaSymbolTags \<Rightarrow> heap \<Rightarrow> fault + (ChafaSymbolMap \<times> heap)" where
  "chafa_symbol_map_remove_by_tags cat symbol_map tags h =
     (if \<not> refs symbol_map > 0 then Inr (symbol_map, h)
      else
        (case (case desired_symbols symbol_map of
                 None \<Rightarrow> g_hash_table_new h
               | Some a \<Rightarrow> (a, h)) of
           (a, h1) \<Rightarrow>
             (case remove_by_tags cat a tags h1 of
                Inl f \<Rightarrow> Inl f
              | Inr h2 \<Rightarrow> Inr (symbol_map\<lparr>desired_symbols := Some a, need_rebuild := True\<rparr>, h2))))"

text \<open>
  \<^verbatim>\<open>chafa_symbol_map_apply_selectors\<close>: with \<^verbatim>\<open>refs <= 0\<close> it returns FALSE and sets
  no error.
\<close>

definition chafa_symbol_map_apply_selectors ::
  "ChafaSymbol list \<Rightarrow> tag_bits \<Rightarrow> ChafaSymbolMap \<Rightarrow> string \<Rightarrow> heap
     \<Rightarrow> fault + (bool \<times> GError option \<times> ChafaSymbolMap \<times> heap)" where
  "chafa_symbol_map_apply_selectors cat bits symbol_map selectors h =
     (if \<not> refs symbol_map > 0 then Inr (False, None, symbol_map, h)
      else parse_selectors cat bits symbol_map selectors h)"

section \<open>Notions for the statements and the proofs\<close>

subsection \<open>One iteration of the selector loop\<close>

text \<open>
  For the proofs the body of the loop is cut in two: \<open>next_clause\<close> is what the body
  reads from the string (up to \<^verbatim>\<open>p0 += n\<close>), \<open>apply_clause\<close> what it then does to the
  tables. \<open>parse_selectors_loop_unfold\<close> shows that the loop is the two, repeated.
\<close>

datatype clause = Break | Fail GError | Clause bool bool ChafaSymbolTags string

definition next_clause :: "tag_bits \<Rightarrow> string \<Rightarrow> bool \<Rightarrow> bool \<Rightarrow> clause" where
  "next_clause bits p0 is_add is_remove =
     (if p0 = [] then Break
      else
        let p1 = drop (strspn p0 '' ,'') p0 in
        if p1 = [] then Break
        else
          let is_add1 = (if hd p1 = CHR ''-'' then False else if hd p1 = CHR ''+'' then True else is_add);
              is_remove1 = (if hd p1 = CHR ''-'' then True else if hd p1 = CHR ''+'' then False else is_remove);
              p2 = (if hd p1 = CHR ''-'' \<or> hd p1 = CHR ''+'' then tl p1 else p1);
              p3 = drop (strspn p2 '' '') p2
          in
          if p3 = [] then Break
          else
            let n = strspn p3 ascii_letters in
            if n = 0 then Fail syntax_error
            else
              (case parse_symbol_tag bits p3 n of
                 Inl e \<Rightarrow> Fail e
               | Inr tag \<Rightarrow> Clause is_add1 is_remove1 tag (drop n p3)))"

definition scratch_table :: "ChafaSymbolMap \<Rightarrow> addr option \<Rightarrow> heap \<Rightarrow> fault + (addr \<times> heap)" where
  "scratch_table symbol_map new_syms h =
     (case new_syms of
        None \<Rightarrow> copy_hash_table (desired_symbols symbol_map) h
      | Some a \<Rightarrow> Inr (a, h))"

definition apply_clause ::
  "ChafaSymbol list \<Rightarrow> ChafaSymbolMap \<Rightarrow> bool \<Rightarrow> bool \<Rightarrow> ChafaSymbolTags \<Rightarrow> addr option \<Rightarrow> heap
     \<Rightarrow> fault + (bool \<times> addr \<times> heap)" where
  "apply_clause cat symbol_map is_add1 is_remove1 tag new_syms h =
     (if is_add1 then
        (case scratch_table symbol_map new_syms h of
           Inl f \<Rightarrow> Inl f
         | Inr (a, h1) \<Rightarrow>
             (case add_by_tags cat a tag h1 of Inl f \<Rightarrow> Inl f | Inr h2 \<Rightarrow> Inr (is_add1, a, h2)))
      else if is_remove1 then
        (case scratch_table symbol_map new_syms h of
           Inl f \<Rightarrow> Inl f
         | Inr (a, h1) \<Rightarrow>
             (case remove_by_tags cat a tag h1 of Inl f \<Rightarrow> Inl f | Inr h2 \<Rightarrow> Inr (is_add1, a, h2)))
      else
        (case (case new_syms of None \<Rightarrow> Inr h | Some a \<Rightarrow> g_hash_table_unref a h) of
           Inl f \<Rightarrow> Inl f
         | Inr h1 \<Rightarrow>
             (case g_hash_table_new h1 of
                (a, h2) \<Rightarrow>
                  (case add_by_tags cat a tag h2 of Inl f \<Rightarrow> Inl f | Inr h3 \<Rightarrow> Inr (True, a, h3)))))"

subsection \<open>Catalogue, heap and symbol map\<close>

text \<open>The catalogue ends with a zero-codepoint sentinel.\<close>

definition has_sentinel :: "ChafaSymbol list \<Rightarrow> bool" where
  "has_sentinel cat = (\<exists>s \<in> set cat. c s = 0)"

text \<open>
  The specification's \<open>entriesMatching (tags)\<close>: the indices, before the sentinel, of the
  catalogue entries whose tag mask intersects \<open>tags\<close>.
\<close>

definition entries_matching :: "ChafaSymbol list \<Rightarrow> ChafaSymbolTags \<Rightarrow> nat set" where
  "entries_matching cat tags =
     {i. i < length (takeWhile (\<lambda>s. c s \<noteq> 0) cat) \<and> sc (cat ! i) AND tags \<noteq> 0}"

text \<open>
  The entries of the catalogue before the sentinel; a selection is valid when it holds
  indices of such entries only, and the catalogue has distinct code points when no two of
  them share one.
\<close>

definition n_entries :: "ChafaSymbol list \<Rightarrow> nat" where
  "n_entries cat = length (takeWhile (\<lambda>s. c s \<noteq> 0) cat)"

definition valid_selection :: "ChafaSymbol list \<Rightarrow> nat set \<Rightarrow> bool" where
  "valid_selection cat S = (\<forall>i \<in> S. i < n_entries cat)"


text \<open>All tables of a heap hold indices of catalogue entries.\<close>

definition tables_valid :: "ChafaSymbol list \<Rightarrow> heap \<Rightarrow> bool" where
  "tables_valid cat h = (\<forall>a S. tables h a = Some S \<longrightarrow> valid_selection cat S)"

text \<open>
  In a well-formed heap every live address lies below \<open>next_addr\<close> and every table is
  finite.
\<close>

definition heap_ok :: "heap \<Rightarrow> bool" where
  "heap_ok h =
     ((\<forall>a. a \<in> dom (tables h) \<union> dom (arrays h) \<longrightarrow> a < next_addr h) \<and>
      (\<forall>a S. tables h a = Some S \<longrightarrow> finite S))"

text \<open>
  A map is well formed in a heap when its pointers are NULL or point to live objects.
\<close>

definition map_ok :: "ChafaSymbolMap \<Rightarrow> heap \<Rightarrow> bool" where
  "map_ok symbol_map h =
     ((case desired_symbols symbol_map of None \<Rightarrow> True | Some t \<Rightarrow> tables h t \<noteq> None) \<and>
      (case symbols symbol_map of None \<Rightarrow> True | Some b \<Rightarrow> arrays h b \<noteq> None))"

text \<open>
  The set of catalogue indices a map selects. A NULL table is the empty selection
  (\<^verbatim>\<open>rebuild_symbols\<close> reads it as size 0); a dangling pointer selects nothing defined.
\<close>

definition selection :: "ChafaSymbolMap \<Rightarrow> heap \<Rightarrow> nat set option" where
  "selection symbol_map h =
     (case desired_symbols symbol_map of None \<Rightarrow> Some {} | Some t \<Rightarrow> tables h t)"

text \<open>
  The scratch table \<^verbatim>\<open>new_syms\<close>, once it exists, is a live table allocated at or after
  \<open>n0\<close>, the allocation mark at the call of \<^verbatim>\<open>parse_selectors\<close>.
\<close>

definition scratch_ok :: "addr \<Rightarrow> addr option \<Rightarrow> heap \<Rightarrow> bool" where
  "scratch_ok n0 new_syms h =
     (case new_syms of None \<Rightarrow> True | Some a \<Rightarrow> n0 \<le> a \<and> tables h a \<noteq> None)"

text \<open>
  \<open>frame n0 h h'\<close>: from \<open>h\<close> to \<open>h'\<close> no table below \<open>n0\<close> and no array has changed.
\<close>

definition frame :: "addr \<Rightarrow> heap \<Rightarrow> heap \<Rightarrow> bool" where
  "frame n0 h h' =
     (heap_ok h' \<and> next_addr h \<le> next_addr h' \<and> arrays h' = arrays h \<and>
      (\<forall>x. x < n0 \<longrightarrow> tables h' x = tables h x))"

subsection \<open>Selector strings\<close>






subsection \<open>A small catalogue\<close>

text \<open>
  Modelled from the spec: values for the enum constants of \<^verbatim>\<open>chafa.h\<close>, which is not
  among the sources: one bit each in the order of their declaration, with
  \<^verbatim>\<open>HALF = HHALF | VHALF\<close> and \<^verbatim>\<open>ALL\<close> the union of all.
\<close>

fun example_bits :: tag_bits where
  "example_bits CHAFA_SYMBOL_TAG_NONE = 0"
| "example_bits CHAFA_SYMBOL_TAG_SPACE = 1"
| "example_bits CHAFA_SYMBOL_TAG_SOLID = 2"
| "example_bits CHAFA_SYMBOL_TAG_STIPPLE = 4"
| "example_bits CHAFA_SYMBOL_TAG_BLOCK = 8"
| "example_bits CHAFA_SYMBOL_TAG_BORDER = 16"
| "example_bits CHAFA_SYMBOL_TAG_DIAGONAL = 32"
| "example_bits CHAFA_SYMBOL_TAG_DOT = 64"
| "example_bits CHAFA_SYMBOL_TAG_QUAD = 128"
| "example_bits CHAFA_SYMBOL_TAG_HHALF = 256"
| "example_bits CHAFA_SYMBOL_TAG_VHALF = 512"
| "example_bits CHAFA_SYMBOL_TAG_HALF = 768"
| "example_bits CHAFA_SYMBOL_TAG_INVERTED = 1024"
| "example_bits CHAFA_SYMBOL_TAG_BRAILLE = 2048"
| "example_bits CHAFA_SYMBOL_TAG_ALL = 4095"

text \<open>
  A catalogue of six symbols (full block, space, a box-drawing line, middle dot, light
  shade, upper half block) and the sentinel, and a symbol map that selects the space
  symbol, as \<^verbatim>\<open>chafa_symbol_map_add_by_tags\<close> with \<^verbatim>\<open>CHAFA_SYMBOL_TAG_SPACE\<close> leaves a
  new map in an empty heap.
\<close>

definition example_symbols :: "ChafaSymbol list" where
  "example_symbols =
     [ \<lparr>c = 0x2588, sc = 10\<rparr>,
       \<lparr>c = 0x20, sc = 1\<rparr>,
       \<lparr>c = 0x2500, sc = 16\<rparr>,
       \<lparr>c = 0xB7, sc = 64\<rparr>,
       \<lparr>c = 0x2591, sc = 4\<rparr>,
       \<lparr>c = 0x2580, sc = 520\<rparr>,
       \<lparr>c = 0, sc = 0\<rparr> ]"

definition example_heap :: heap where
  "example_heap = \<lparr>tables = [0 \<mapsto> {1}], arrays = Map.empty, next_addr = 1\<rparr>"

definition example_map :: ChafaSymbolMap where
  "example_map = chafa_symbol_map_init\<lparr>desired_symbols := Some 0, need_rebuild := True\<rparr>"

section \<open>Lemmas\<close>

declare parse_selectors_loop.simps [simp del]

subsection \<open>The loop, one iteration at a time\<close>

lemma parse_selectors_loop_unfold:
  "parse_selectors_loop cat bits symbol_map p0 is_add is_remove new_syms h =
     (case next_clause bits p0 is_add is_remove of
        Break \<Rightarrow> Inr (None, new_syms, h)
      | Fail e \<Rightarrow> Inr (Some e, new_syms, h)
      | Clause is_add1 is_remove1 tag rest \<Rightarrow>
          (case apply_clause cat symbol_map is_add1 is_remove1 tag new_syms h of
             Inl f \<Rightarrow> Inl f
           | Inr (is_add2, a, h') \<Rightarrow>
               parse_selectors_loop cat bits symbol_map rest is_add2 is_remove1 (Some a) h'))"
proof -
  let ?p1 = "drop (strspn p0 '' ,'') p0"
  let ?ia = "if hd ?p1 = CHR ''-'' then False else if hd ?p1 = CHR ''+'' then True else is_add"
  let ?ir = "if hd ?p1 = CHR ''-'' then True else if hd ?p1 = CHR ''+'' then False else is_remove"
  let ?p2 = "if hd ?p1 = CHR ''-'' \<or> hd ?p1 = CHR ''+'' then tl ?p1 else ?p1"
  let ?p3 = "drop (strspn ?p2 '' '') ?p2"
  let ?n = "strspn ?p3 ascii_letters"
  consider
      (A) "p0 = []"
    | (B) "p0 \<noteq> []" "?p1 = []"
    | (C) "p0 \<noteq> []" "?p1 \<noteq> []" "?p3 = []"
    | (D) "p0 \<noteq> []" "?p1 \<noteq> []" "?p3 \<noteq> []" "?n = 0"
    | (E) e where "p0 \<noteq> []" "?p1 \<noteq> []" "?p3 \<noteq> []" "?n \<noteq> 0" "parse_symbol_tag bits ?p3 ?n = Inl e"
    | (F) tag where "p0 \<noteq> []" "?p1 \<noteq> []" "?p3 \<noteq> []" "?n \<noteq> 0" "parse_symbol_tag bits ?p3 ?n = Inr tag"
    by (cases "parse_symbol_tag bits ?p3 ?n") blast+
  then show ?thesis
  proof cases
    case A
    then show ?thesis
      by (subst parse_selectors_loop.simps) (simp add: next_clause_def)
  next
    case B
    then show ?thesis
      by (subst parse_selectors_loop.simps) (simp add: next_clause_def)
  next
    case C
    then show ?thesis
      by (subst parse_selectors_loop.simps) (simp add: next_clause_def Let_def)
  next
    case D
    then show ?thesis
      by (subst parse_selectors_loop.simps) (simp add: next_clause_def Let_def)
  next
    case E
    then show ?thesis
      by (subst parse_selectors_loop.simps) (simp add: next_clause_def Let_def)
  next
    case F
    then have nc: "next_clause bits p0 is_add is_remove = Clause ?ia ?ir tag (drop ?n ?p3)"
      by (simp add: next_clause_def Let_def)
    show ?thesis
    proof (cases ?ia)
      case True
      with F show ?thesis
        apply (subst parse_selectors_loop.simps)
        apply (simp only: nc clause.case)
        apply (simp add: Let_def apply_clause_def scratch_table_def split: sum.splits option.splits prod.splits)
        done
    next
      case False
      note ia = this
      show ?thesis
      proof (cases ?ir)
        case True
        with F ia show ?thesis
          apply (subst parse_selectors_loop.simps)
          apply (simp only: nc clause.case)
          apply (simp add: Let_def apply_clause_def scratch_table_def split: sum.splits option.splits prod.splits)
          done
      next
        case False
        with F ia show ?thesis
          apply (subst parse_selectors_loop.simps)
          apply (simp only: nc clause.case)
          apply (simp add: Let_def apply_clause_def split: sum.splits option.splits prod.splits)
          done
      qed
    qed
  qed
qed

lemma next_clause_shorter:
  "next_clause bits p0 is_add is_remove = Clause is_add1 is_remove1 tag rest \<Longrightarrow> length rest < length p0"
  apply (simp add: next_clause_def Let_def split: if_splits sum.splits)
  apply (auto simp: strspn_def)
  done

subsection \<open>Loops over the catalogue and over a table\<close>

lemma entries_matching_Nil: "entries_matching [] tags = {}"
  by (simp add: entries_matching_def)

lemma entries_matching_Cons:
  "entries_matching (s # ss) tags =
     (if c s = 0 then {}
      else (if sc s AND tags \<noteq> 0 then {0} else {}) \<union> Suc ` entries_matching ss tags)"
proof (cases "c s = 0")
  case True
  then show ?thesis by (simp add: entries_matching_def)
next
  case False
  have "\<And>i. i \<in> entries_matching (s # ss) tags \<longleftrightarrow>
          (i = 0 \<and> sc s AND tags \<noteq> 0) \<or> (\<exists>j. i = Suc j \<and> j \<in> entries_matching ss tags)"
    using False by (case_tac i) (auto simp: entries_matching_def)
  then show ?thesis using False by (auto simp: image_iff)
qed

lemma entries_matching_less: "i \<in> entries_matching cat tags \<Longrightarrow> i < n_entries cat"
  by (simp add: entries_matching_def n_entries_def)

lemma finite_entries_matching: "finite (entries_matching cat tags)"
  by (simp add: entries_matching_def)

lemma heap_tables_same: "tables h a = Some S \<Longrightarrow> h\<lparr>tables := (tables h)(a \<mapsto> S)\<rparr> = h"
  by (simp add: fun_upd_idem)

lemma add_by_tags_loop_result:
  "has_sentinel ss \<Longrightarrow> tables h a = Some S \<Longrightarrow>
   add_by_tags_loop ss i a tags h =
     Inr (h\<lparr>tables := (tables h)(a \<mapsto> S \<union> (\<lambda>j. j + i) ` entries_matching ss tags)\<rparr>)"
proof (induction ss arbitrary: i h S)
  case Nil
  then show ?case by (simp add: has_sentinel_def)
next
  case (Cons s ss)
  have img: "(\<lambda>j. j + i) ` Suc ` entries_matching ss tags = (\<lambda>j. j + Suc i) ` entries_matching ss tags"
    by (auto simp: image_iff)
  have "add_by_tags_loop (s # ss) i a tags h =
     Inr (h\<lparr>tables := (tables h)(a \<mapsto> S \<union> (\<lambda>j. j + i) ` entries_matching (s # ss) tags)\<rparr>)"
  proof (cases "c s = 0")
    case True
    then show ?thesis
      using heap_tables_same[OF Cons.prems(2)] by (simp add: entries_matching_Cons)
  next
    case False
    with Cons.prems have hs: "has_sentinel ss" by (auto simp: has_sentinel_def)
    show ?thesis
    proof (cases "sc s AND tags \<noteq> 0")
      case True
      let ?h' = "h\<lparr>tables := (tables h)(a \<mapsto> insert i S)\<rparr>"
      have "add_by_tags_loop ss (Suc i) a tags ?h' =
          Inr (?h'\<lparr>tables := (tables ?h')(a \<mapsto> insert i S \<union> (\<lambda>j. j + Suc i) ` entries_matching ss tags)\<rparr>)"
        by (rule Cons.IH[OF hs]) simp
      with True False Cons.prems(2) show ?thesis
        by (simp add: entries_matching_Cons g_hash_table_add_def img image_Un)
    next
      case nomatch: False
      have "add_by_tags_loop ss (Suc i) a tags h =
          Inr (h\<lparr>tables := (tables h)(a \<mapsto> S \<union> (\<lambda>j. j + Suc i) ` entries_matching ss tags)\<rparr>)"
        by (rule Cons.IH[OF hs Cons.prems(2)])
      with nomatch False show ?thesis
        by (simp add: entries_matching_Cons img)
    qed
  qed
  then show ?case .
qed

lemma add_by_tags_result:
  "has_sentinel cat \<Longrightarrow> tables h a = Some S \<Longrightarrow>
   add_by_tags cat a tags h = Inr (h\<lparr>tables := (tables h)(a \<mapsto> S \<union> entries_matching cat tags)\<rparr>)"
  using add_by_tags_loop_result[of cat h a S 0 tags] by (simp add: add_by_tags_def)

lemma remove_by_tags_loop_result:
  "has_sentinel ss \<Longrightarrow> tables h a = Some S \<Longrightarrow>
   remove_by_tags_loop ss i a tags h =
     Inr (h\<lparr>tables := (tables h)(a \<mapsto> S - (\<lambda>j. j + i) ` entries_matching ss tags)\<rparr>)"
proof (induction ss arbitrary: i h S)
  case Nil
  then show ?case by (simp add: has_sentinel_def)
next
  case (Cons s ss)
  have img: "(\<lambda>j. j + i) ` Suc ` entries_matching ss tags = (\<lambda>j. j + Suc i) ` entries_matching ss tags"
    by (auto simp: image_iff)
  have "remove_by_tags_loop (s # ss) i a tags h =
     Inr (h\<lparr>tables := (tables h)(a \<mapsto> S - (\<lambda>j. j + i) ` entries_matching (s # ss) tags)\<rparr>)"
  proof (cases "c s = 0")
    case True
    then show ?thesis
      using heap_tables_same[OF Cons.prems(2)] by (simp add: entries_matching_Cons)
  next
    case False
    with Cons.prems have hs: "has_sentinel ss" by (auto simp: has_sentinel_def)
    show ?thesis
    proof (cases "sc s AND tags \<noteq> 0")
      case True
      let ?h' = "h\<lparr>tables := (tables h)(a \<mapsto> S - {i})\<rparr>"
      have eq: "S - {i} - (\<lambda>j. j + Suc i) ` entries_matching ss tags
          = S - insert i ((\<lambda>j. j + Suc i) ` entries_matching ss tags)" by auto
      have "remove_by_tags_loop ss (Suc i) a tags ?h' =
          Inr (?h'\<lparr>tables := (tables ?h')(a \<mapsto> S - {i} - (\<lambda>j. j + Suc i) ` entries_matching ss tags)\<rparr>)"
        by (rule Cons.IH[OF hs]) simp
      with True False Cons.prems(2) eq show ?thesis
        by (simp add: entries_matching_Cons g_hash_table_remove_def img image_Un)
    next
      case nomatch: False
      have "remove_by_tags_loop ss (Suc i) a tags h =
          Inr (h\<lparr>tables := (tables h)(a \<mapsto> S - (\<lambda>j. j + Suc i) ` entries_matching ss tags)\<rparr>)"
        by (rule Cons.IH[OF hs Cons.prems(2)])
      with nomatch False show ?thesis
        by (simp add: entries_matching_Cons img)
    qed
  qed
  then show ?case .
qed

lemma remove_by_tags_result:
  "has_sentinel cat \<Longrightarrow> tables h a = Some S \<Longrightarrow>
   remove_by_tags cat a tags h = Inr (h\<lparr>tables := (tables h)(a \<mapsto> S - entries_matching cat tags)\<rparr>)"
  using remove_by_tags_loop_result[of cat h a S 0 tags] by (simp add: remove_by_tags_def)

lemma copy_hash_table_loop_result:
  "tables h dest = Some D \<Longrightarrow>
   copy_hash_table_loop dest keys h = Inr (h\<lparr>tables := (tables h)(dest \<mapsto> D \<union> set keys)\<rparr>)"
proof (induction keys arbitrary: h D)
  case Nil
  have "copy_hash_table_loop dest [] h = Inr (h\<lparr>tables := (tables h)(dest \<mapsto> D \<union> set [])\<rparr>)"
    using heap_tables_same[OF Nil] by simp
  then show ?case .
next
  case (Cons k keys)
  let ?h' = "h\<lparr>tables := (tables h)(dest \<mapsto> insert k D)\<rparr>"
  have "copy_hash_table_loop dest keys ?h'
      = Inr (?h'\<lparr>tables := (tables ?h')(dest \<mapsto> insert k D \<union> set keys)\<rparr>)"
    by (rule Cons.IH) simp
  with Cons.prems
  have "copy_hash_table_loop dest (k # keys) h = Inr (h\<lparr>tables := (tables h)(dest \<mapsto> D \<union> set (k # keys))\<rparr>)"
    by (simp add: g_hash_table_insert_def g_hash_table_add_def)
  then show ?case .
qed

lemma copy_hash_table_result:
  "tables h a = Some S \<Longrightarrow> finite S \<Longrightarrow> a \<noteq> next_addr h \<Longrightarrow>
   copy_hash_table (Some a) h =
     Inr (next_addr h, h\<lparr>tables := (tables h)(next_addr h \<mapsto> S), next_addr := Suc (next_addr h)\<rparr>)"
  by (simp add: copy_hash_table_def g_hash_table_new_def g_hash_table_iter_def
        copy_hash_table_loop_result[where D = "{}"])

subsection \<open>Well-formed heaps\<close>

lemma heap_ok_fresh_table: "heap_ok h \<Longrightarrow> tables h (next_addr h) = None"
  by (force simp: heap_ok_def)

lemma heap_ok_fresh_array: "heap_ok h \<Longrightarrow> arrays h (next_addr h) = None"
  by (force simp: heap_ok_def)

lemma heap_ok_live_less: "heap_ok h \<Longrightarrow> tables h a = Some S \<Longrightarrow> a < next_addr h"
  by (force simp: heap_ok_def)

lemma heap_ok_finite: "heap_ok h \<Longrightarrow> tables h a = Some S \<Longrightarrow> finite S"
  by (auto simp: heap_ok_def)

lemma heap_ok_set_table:
  "heap_ok h \<Longrightarrow> tables h a = Some S \<Longrightarrow> finite S' \<Longrightarrow> heap_ok (h\<lparr>tables := (tables h)(a \<mapsto> S')\<rparr>)"
  by (auto simp: heap_ok_def)

lemma heap_ok_new_table:
  "heap_ok h \<Longrightarrow> finite S \<Longrightarrow>
   heap_ok (h\<lparr>tables := (tables h)(next_addr h \<mapsto> S), next_addr := Suc (next_addr h)\<rparr>)"
  by (auto simp: heap_ok_def less_Suc_eq)

lemma heap_ok_free_table:
  "heap_ok h \<Longrightarrow> heap_ok (h\<lparr>tables := (tables h)(a := None)\<rparr>)"
  by (auto simp: heap_ok_def split: if_splits)

subsection \<open>What a clause does to the tables\<close>

text \<open>What \<open>apply_clause\<close> does, case by case.\<close>

lemma apply_clause_add_copy:
  assumes "has_sentinel cat" "heap_ok h" "desired_symbols symbol_map = Some t" "tables h t = Some S"
  shows "apply_clause cat symbol_map True is_remove1 tag None h =
     Inr (True, next_addr h,
          h\<lparr>tables := (tables h)(next_addr h \<mapsto> S \<union> entries_matching cat tag),
            next_addr := Suc (next_addr h)\<rparr>)"
proof -
  have ne: "t \<noteq> next_addr h" using heap_ok_live_less[OF assms(2,4)] by simp
  have cp: "copy_hash_table (Some t) h =
     Inr (next_addr h, h\<lparr>tables := (tables h)(next_addr h \<mapsto> S), next_addr := Suc (next_addr h)\<rparr>)"
    by (rule copy_hash_table_result[OF assms(4) heap_ok_finite[OF assms(2,4)] ne])
  let ?h1 = "h\<lparr>tables := (tables h)(next_addr h \<mapsto> S), next_addr := Suc (next_addr h)\<rparr>"
  have "add_by_tags cat (next_addr h) tag ?h1 =
      Inr (?h1\<lparr>tables := (tables ?h1)(next_addr h \<mapsto> S \<union> entries_matching cat tag)\<rparr>)"
    by (rule add_by_tags_result[OF assms(1)]) simp
  with cp assms(3) show ?thesis
    by (simp add: apply_clause_def scratch_table_def)
qed

lemma apply_clause_remove_copy:
  assumes "has_sentinel cat" "heap_ok h" "desired_symbols symbol_map = Some t" "tables h t = Some S"
  shows "apply_clause cat symbol_map False True tag None h =
     Inr (False, next_addr h,
          h\<lparr>tables := (tables h)(next_addr h \<mapsto> S - entries_matching cat tag),
            next_addr := Suc (next_addr h)\<rparr>)"
proof -
  have ne: "t \<noteq> next_addr h" using heap_ok_live_less[OF assms(2,4)] by simp
  have cp: "copy_hash_table (Some t) h =
     Inr (next_addr h, h\<lparr>tables := (tables h)(next_addr h \<mapsto> S), next_addr := Suc (next_addr h)\<rparr>)"
    by (rule copy_hash_table_result[OF assms(4) heap_ok_finite[OF assms(2,4)] ne])
  let ?h1 = "h\<lparr>tables := (tables h)(next_addr h \<mapsto> S), next_addr := Suc (next_addr h)\<rparr>"
  have "remove_by_tags cat (next_addr h) tag ?h1 =
      Inr (?h1\<lparr>tables := (tables ?h1)(next_addr h \<mapsto> S - entries_matching cat tag)\<rparr>)"
    by (rule remove_by_tags_result[OF assms(1)]) simp
  with cp assms(3) show ?thesis
    by (simp add: apply_clause_def scratch_table_def)
qed

lemma apply_clause_null_copy:
  assumes "desired_symbols symbol_map = None" "is_add1 \<or> is_remove1"
  shows "apply_clause cat symbol_map is_add1 is_remove1 tag None h = Inl NullPointer"
  using assms by (auto simp: apply_clause_def scratch_table_def copy_hash_table_def g_hash_table_new_def)

lemma apply_clause_add_scratch:
  assumes "has_sentinel cat" "tables h a = Some S"
  shows "apply_clause cat symbol_map True is_remove1 tag (Some a) h =
     Inr (True, a, h\<lparr>tables := (tables h)(a \<mapsto> S \<union> entries_matching cat tag)\<rparr>)"
  using add_by_tags_result[OF assms, of tag]
  by (simp add: apply_clause_def scratch_table_def)

lemma apply_clause_remove_scratch:
  assumes "has_sentinel cat" "tables h a = Some S"
  shows "apply_clause cat symbol_map False True tag (Some a) h =
     Inr (False, a, h\<lparr>tables := (tables h)(a \<mapsto> S - entries_matching cat tag)\<rparr>)"
  using remove_by_tags_result[OF assms, of tag]
  by (simp add: apply_clause_def scratch_table_def)

lemma apply_clause_reset_none:
  assumes "has_sentinel cat"
  shows "apply_clause cat symbol_map False False tag None h =
     Inr (True, next_addr h,
          h\<lparr>tables := (tables h)(next_addr h \<mapsto> entries_matching cat tag),
            next_addr := Suc (next_addr h)\<rparr>)"
proof -
  let ?h1 = "h\<lparr>tables := (tables h)(next_addr h \<mapsto> {}), next_addr := Suc (next_addr h)\<rparr>"
  have "add_by_tags cat (next_addr h) tag ?h1 =
      Inr (?h1\<lparr>tables := (tables ?h1)(next_addr h \<mapsto> {} \<union> entries_matching cat tag)\<rparr>)"
    by (rule add_by_tags_result[OF assms]) simp
  then show ?thesis
    by (simp add: apply_clause_def g_hash_table_new_def)
qed

lemma apply_clause_reset_some:
  assumes "has_sentinel cat" "tables h a = Some S"
  shows "apply_clause cat symbol_map False False tag (Some a) h =
     Inr (True, next_addr h,
          h\<lparr>tables := ((tables h)(a := None))(next_addr h \<mapsto> entries_matching cat tag),
            next_addr := Suc (next_addr h)\<rparr>)"
proof -
  let ?h1 = "h\<lparr>tables := ((tables h)(a := None))(next_addr h \<mapsto> {}), next_addr := Suc (next_addr h)\<rparr>"
  have "add_by_tags cat (next_addr h) tag ?h1 =
      Inr (?h1\<lparr>tables := (tables ?h1)(next_addr h \<mapsto> {} \<union> entries_matching cat tag)\<rparr>)"
    by (rule add_by_tags_result[OF assms(1)]) simp
  with assms(2) show ?thesis
    by (simp add: apply_clause_def g_hash_table_new_def g_hash_table_unref_def)
qed

lemma copy_hash_table_dangling:
  "tables h t = None \<Longrightarrow> t \<noteq> next_addr h \<Longrightarrow> copy_hash_table (Some t) h = Inl InvalidPointer"
  by (simp add: copy_hash_table_def g_hash_table_new_def)

subsection \<open>The frame of the loop\<close>

lemma frame_refl: "heap_ok h \<Longrightarrow> frame n0 h h"
  by (simp add: frame_def)

lemma frame_trans: "frame n0 h h1 \<Longrightarrow> frame n0 h1 h2 \<Longrightarrow> frame n0 h h2"
  by (auto simp: frame_def)

lemma apply_clause_frame:
  assumes cat: "has_sentinel cat" and ok: "heap_ok h" and n0: "n0 \<le> next_addr h"
    and sc: "scratch_ok n0 new_syms h"
    and des: "\<And>t. desired_symbols symbol_map = Some t \<Longrightarrow> t < n0"
    and run: "apply_clause cat symbol_map is_add1 is_remove1 tag new_syms h = Inr (is_add2, a', h')"
  shows "frame n0 h h' \<and> scratch_ok n0 (Some a') h' \<and> (is_add2 \<or> is_remove1) \<and>
         (tables_valid cat h \<longrightarrow> tables_valid cat h')"
proof (cases new_syms)
  case None
  show ?thesis
  proof (cases "is_add1 \<or> is_remove1")
    case True
    with run None obtain t where t: "desired_symbols symbol_map = Some t"
      using apply_clause_null_copy[of symbol_map is_add1 is_remove1 cat tag h]
      by (cases "desired_symbols symbol_map") auto
    have "tables h t \<noteq> None"
    proof
      assume d: "tables h t = None"
      have "t \<noteq> next_addr h" using des[OF t] n0 by simp
      from copy_hash_table_dangling[OF d this] run None t True show False
        by (auto simp: apply_clause_def scratch_table_def split: if_splits)
    qed
    then obtain S where S: "tables h t = Some S" by auto
    have fin: "finite S" by (rule heap_ok_finite[OF ok S])
    have fr: "tables h (next_addr h) = None" by (rule heap_ok_fresh_table[OF ok])
    show ?thesis
    proof (cases is_add1)
      case ia: True
      have "Inr (is_add2, a', h') = apply_clause cat symbol_map True is_remove1 tag None h"
        using run None ia by simp
      also note apply_clause_add_copy[OF cat ok t S]
      finally have r: "is_add2 = True" "a' = next_addr h"
        "h' = h\<lparr>tables := (tables h)(next_addr h \<mapsto> S \<union> entries_matching cat tag),
              next_addr := Suc (next_addr h)\<rparr>"
        by simp_all
      have "heap_ok h'" unfolding r
        by (rule heap_ok_new_table[OF ok]) (simp add: fin finite_entries_matching)
      with n0 S show ?thesis
        by (auto simp: frame_def scratch_ok_def r tables_valid_def valid_selection_def
            dest: entries_matching_less split: if_splits)
    next
      case ia: False
      with True have ir: is_remove1 by simp
      have "Inr (is_add2, a', h') = apply_clause cat symbol_map False True tag None h"
        using run None ia ir by simp
      also note apply_clause_remove_copy[OF cat ok t S]
      finally have r: "is_add2 = False" "a' = next_addr h"
        "h' = h\<lparr>tables := (tables h)(next_addr h \<mapsto> S - entries_matching cat tag),
              next_addr := Suc (next_addr h)\<rparr>"
        by simp_all
      have "heap_ok h'" unfolding r
        by (rule heap_ok_new_table[OF ok]) (simp add: fin)
      with n0 ir S show ?thesis
        by (auto simp: frame_def scratch_ok_def r tables_valid_def valid_selection_def
            dest: entries_matching_less split: if_splits)
    qed
  next
    case False
    have "Inr (is_add2, a', h') = apply_clause cat symbol_map False False tag None h"
      using run None False by simp
    also note apply_clause_reset_none[OF cat]
    finally have r: "is_add2 = True" "a' = next_addr h"
      "h' = h\<lparr>tables := (tables h)(next_addr h \<mapsto> entries_matching cat tag),
            next_addr := Suc (next_addr h)\<rparr>"
      by simp_all
    have "heap_ok h'" unfolding r
      by (rule heap_ok_new_table[OF ok]) (simp add: finite_entries_matching)
    with n0 show ?thesis
      by (auto simp: frame_def scratch_ok_def r tables_valid_def valid_selection_def
            dest: entries_matching_less split: if_splits)
  qed
next
  case (Some a)
  with sc obtain S where a: "n0 \<le> a" and S: "tables h a = Some S"
    by (auto simp: scratch_ok_def)
  have fin: "finite S" by (rule heap_ok_finite[OF ok S])
  show ?thesis
  proof (cases is_add1)
    case ia: True
    have "Inr (is_add2, a', h') = apply_clause cat symbol_map True is_remove1 tag (Some a) h"
      using run Some ia by simp
    also note apply_clause_add_scratch[OF cat S]
    finally have r: "is_add2 = True" "a' = a"
      "h' = h\<lparr>tables := (tables h)(a \<mapsto> S \<union> entries_matching cat tag)\<rparr>"
      by simp_all
    have "heap_ok h'" unfolding r
      by (rule heap_ok_set_table[OF ok S]) (simp add: fin finite_entries_matching)
    with a S show ?thesis
      by (auto simp: frame_def scratch_ok_def r tables_valid_def valid_selection_def
            dest: entries_matching_less split: if_splits)
  next
    case ia: False
    show ?thesis
    proof (cases is_remove1)
      case ir: True
      have "Inr (is_add2, a', h') = apply_clause cat symbol_map False True tag (Some a) h"
        using run Some ia ir by simp
      also note apply_clause_remove_scratch[OF cat S]
      finally have r: "is_add2 = False" "a' = a"
        "h' = h\<lparr>tables := (tables h)(a \<mapsto> S - entries_matching cat tag)\<rparr>"
        by simp_all
      have "heap_ok h'" unfolding r
        by (rule heap_ok_set_table[OF ok S]) (simp add: fin)
      with a ir S show ?thesis
        by (auto simp: frame_def scratch_ok_def r tables_valid_def valid_selection_def
            dest: entries_matching_less split: if_splits)
    next
      case ir: False
      have "Inr (is_add2, a', h') = apply_clause cat symbol_map False False tag (Some a) h"
        using run Some ia ir by simp
      also note apply_clause_reset_some[OF cat S]
      finally have r: "is_add2 = True" "a' = next_addr h"
        "h' = h\<lparr>tables := ((tables h)(a := None))(next_addr h \<mapsto> entries_matching cat tag),
              next_addr := Suc (next_addr h)\<rparr>"
        by simp_all
      have "heap_ok (h\<lparr>tables := (tables h)(a := None)\<rparr>)" (is "heap_ok ?h1")
        by (rule heap_ok_free_table[OF ok])
      from heap_ok_new_table[OF this, of "entries_matching cat tag"]
      have "heap_ok h'" unfolding r by (simp add: finite_entries_matching)
      with n0 a show ?thesis
        by (auto simp: frame_def scratch_ok_def r tables_valid_def valid_selection_def
            dest: entries_matching_less split: if_splits)
    qed
  qed
qed

lemma frame_heap_ok: "frame n0 h h' \<Longrightarrow> heap_ok h'"
  by (simp add: frame_def)

lemma frame_next_addr: "frame n0 h h' \<Longrightarrow> n0 \<le> next_addr h \<Longrightarrow> n0 \<le> next_addr h'"
  by (simp add: frame_def)

lemma parse_selectors_loop_frame:
  assumes cat: "has_sentinel cat" and des: "\<And>t. desired_symbols symbol_map = Some t \<Longrightarrow> t < n0"
  shows "heap_ok h \<Longrightarrow> n0 \<le> next_addr h \<Longrightarrow> scratch_ok n0 new_syms h \<Longrightarrow>
     parse_selectors_loop cat bits symbol_map p0 is_add is_remove new_syms h = Inr (err, new_syms', h') \<Longrightarrow>
     frame n0 h h' \<and> scratch_ok n0 new_syms' h' \<and> (tables_valid cat h \<longrightarrow> tables_valid cat h')"
proof (induction "length p0" arbitrary: p0 is_add is_remove new_syms h rule: less_induct)
  case less
  note run = less.prems(4)[unfolded parse_selectors_loop_unfold[of cat bits symbol_map p0]]
  show ?case
  proof (cases "next_clause bits p0 is_add is_remove")
    case Break
    with run less.prems(1,3) show ?thesis by (simp add: frame_refl)
  next
    case (Fail e)
    with run less.prems(1,3) show ?thesis by (simp add: frame_refl)
  next
    case (Clause is_add1 is_remove1 tag rest)
    from run Clause obtain is_add2 a h1 where
      ac: "apply_clause cat symbol_map is_add1 is_remove1 tag new_syms h = Inr (is_add2, a, h1)" and
      run1: "parse_selectors_loop cat bits symbol_map rest is_add2 is_remove1 (Some a) h1 = Inr (err, new_syms', h')"
      by (auto split: sum.splits)
    from apply_clause_frame[OF cat less.prems(1,2,3) des ac]
    have fr: "frame n0 h h1" and sc1: "scratch_ok n0 (Some a) h1"
      and tv: "tables_valid cat h \<longrightarrow> tables_valid cat h1" by simp_all
    have len: "length rest < length p0" by (rule next_clause_shorter[OF Clause])
    have "frame n0 h1 h' \<and> scratch_ok n0 new_syms' h' \<and> (tables_valid cat h1 \<longrightarrow> tables_valid cat h')"
      by (rule less.hyps[OF len frame_heap_ok[OF fr] frame_next_addr[OF fr less.prems(2)] sc1 run1])
    with fr tv show ?thesis by (auto intro: frame_trans)
  qed
qed

lemma map_ok_desired_less:
  "heap_ok h \<Longrightarrow> map_ok symbol_map h \<Longrightarrow> desired_symbols symbol_map = Some t \<Longrightarrow> t < next_addr h"
  by (auto simp: map_ok_def heap_ok_def)

subsection \<open>Strings that cannot be parsed\<close>







lemma g_ascii_strncasecmp_slice:
  "g_ascii_strncasecmp nm (w @ post) (length w) = g_ascii_strncasecmp nm w (length w)"
proof (induction w arbitrary: nm)
  case Nil
  show ?case by (cases nm; cases post) simp_all
next
  case (Cons x w)
  show ?case
  proof (cases nm)
    case Nil
    then show ?thesis by (simp add: deref_def)
  next
    case (Cons a nm')
    with Cons.IH[of nm'] show ?thesis by simp
  qed
qed

lemma parse_symbol_tag_loop_slice:
  "parse_symbol_tag_loop tbl (w @ post) (length w) = parse_symbol_tag_loop tbl w (length w)"
  by (induction tbl) (auto simp: g_ascii_strncasecmp_slice)

lemma parse_symbol_tag_slice:
  "parse_symbol_tag bits (w @ post) (length w) = parse_symbol_tag bits w (length w)"
  by (simp add: parse_symbol_tag_def parse_symbol_tag_loop_slice split: option.splits)








subsection \<open>The small catalogue\<close>

lemma example_has_sentinel: "has_sentinel example_symbols"
  by (simp add: has_sentinel_def example_symbols_def)

lemma example_heap_ok: "heap_ok example_heap"
  by (simp add: heap_ok_def example_heap_def)

lemma example_map_ok: "map_ok example_map example_heap"
  by (simp add: map_ok_def example_map_def example_heap_def chafa_symbol_map_init_def)

lemma example_matching_space: "entries_matching example_symbols 1 = {1}"
  by (simp add: example_symbols_def entries_matching_Cons entries_matching_Nil)



subsection \<open>Frame and totality of \<^verbatim>\<open>parse_selectors\<close>\<close>

lemma parse_selectors_error_frame:
  assumes "has_sentinel cat" and "heap_ok h" and "map_ok symbol_map h"
    and "parse_selectors cat bits symbol_map selectors h = Inr (result, Some e, symbol_map', h')"
  shows "symbol_map' = symbol_map \<and> frame (next_addr h) h h'"
proof -
  have des: "\<And>t. desired_symbols symbol_map = Some t \<Longrightarrow> t < next_addr h"
    by (rule map_ok_desired_less[OF assms(2,3)])
  from assms(4) obtain new_syms h1 where
    loop: "parse_selectors_loop cat bits symbol_map selectors False False None h = Inr (Some e, new_syms, h1)"
    and out: "(case new_syms of None \<Rightarrow> Inr h1 | Some a \<Rightarrow> g_hash_table_unref a h1) = Inr h'"
    and m: "symbol_map' = symbol_map"
    by (auto simp: parse_selectors_def split: sum.splits option.splits)
  have "scratch_ok (next_addr h) None h" by (simp add: scratch_ok_def)
  from parse_selectors_loop_frame[OF assms(1) des assms(2) le_refl this loop]
  have fr: "frame (next_addr h) h h1" and sc: "scratch_ok (next_addr h) new_syms h1" by simp_all
  have "frame (next_addr h) h h'"
  proof (cases new_syms)
    case None
    with out fr show ?thesis by simp
  next
    case (Some a)
    with out sc have h': "h' = h1\<lparr>tables := (tables h1)(a := None)\<rparr>" and a: "next_addr h \<le> a"
      by (auto simp: g_hash_table_unref_def scratch_ok_def)
    have "heap_ok h'" unfolding h' by (rule heap_ok_free_table[OF frame_heap_ok[OF fr]])
    with fr a show ?thesis by (auto simp: frame_def h')
  qed
  with m show ?thesis by simp
qed

lemma frame_selection:
  "frame (next_addr h) h h' \<Longrightarrow> heap_ok h \<Longrightarrow> map_ok symbol_map h \<Longrightarrow>
   selection symbol_map h' = selection symbol_map h"
  by (auto simp: selection_def frame_def dest: map_ok_desired_less split: option.splits)

text \<open>\<open>apply_clause\<close> and the loop return when the table they copy exists.\<close>

lemma apply_clause_total:
  assumes cat: "has_sentinel cat" and ok: "heap_ok h"
    and sc: "scratch_ok n0 new_syms h"
    and live: "\<And>t. desired_symbols symbol_map = Some t \<Longrightarrow> tables h t \<noteq> None"
    and init: "desired_symbols symbol_map = None \<Longrightarrow> new_syms \<noteq> None"
  shows "\<exists>r. apply_clause cat symbol_map is_add1 is_remove1 tag new_syms h = Inr r"
proof (cases new_syms)
  case None
  with init obtain t where t: "desired_symbols symbol_map = Some t"
    by (cases "desired_symbols symbol_map") auto
  with live obtain S where S: "tables h t = Some S" by auto
  show ?thesis
  proof (cases is_add1)
    case True
    with None have "apply_clause cat symbol_map is_add1 is_remove1 tag new_syms h =
        apply_clause cat symbol_map True is_remove1 tag None h" by simp
    also note apply_clause_add_copy[OF cat ok t S]
    finally show ?thesis by (rule exI)
  next
    case ia: False
    show ?thesis
    proof (cases is_remove1)
      case True
      with None ia have "apply_clause cat symbol_map is_add1 is_remove1 tag new_syms h =
          apply_clause cat symbol_map False True tag None h" by simp
      also note apply_clause_remove_copy[OF cat ok t S]
      finally show ?thesis by (rule exI)
    next
      case False
      with None ia have "apply_clause cat symbol_map is_add1 is_remove1 tag new_syms h =
          apply_clause cat symbol_map False False tag None h" by simp
      also note apply_clause_reset_none[OF cat]
      finally show ?thesis by (rule exI)
    qed
  qed
next
  case (Some a)
  with sc obtain S where S: "tables h a = Some S" by (auto simp: scratch_ok_def)
  show ?thesis
  proof (cases is_add1)
    case True
    with Some have "apply_clause cat symbol_map is_add1 is_remove1 tag new_syms h =
        apply_clause cat symbol_map True is_remove1 tag (Some a) h" by simp
    also note apply_clause_add_scratch[OF cat S]
    finally show ?thesis by (rule exI)
  next
    case ia: False
    show ?thesis
    proof (cases is_remove1)
      case True
      with Some ia have "apply_clause cat symbol_map is_add1 is_remove1 tag new_syms h =
          apply_clause cat symbol_map False True tag (Some a) h" by simp
      also note apply_clause_remove_scratch[OF cat S]
      finally show ?thesis by (rule exI)
    next
      case False
      with Some ia have "apply_clause cat symbol_map is_add1 is_remove1 tag new_syms h =
          apply_clause cat symbol_map False False tag (Some a) h" by simp
      also note apply_clause_reset_some[OF cat S]
      finally show ?thesis by (rule exI)
    qed
  qed
qed

lemma parse_selectors_loop_total:
  assumes cat: "has_sentinel cat"
    and des: "\<And>t. desired_symbols symbol_map = Some t \<Longrightarrow> t < n0"
  shows "heap_ok h \<Longrightarrow> n0 \<le> next_addr h \<Longrightarrow> scratch_ok n0 new_syms h \<Longrightarrow>
     (\<And>t. desired_symbols symbol_map = Some t \<Longrightarrow> tables h t \<noteq> None) \<Longrightarrow>
     (desired_symbols symbol_map = None \<Longrightarrow> new_syms \<noteq> None) \<Longrightarrow>
     \<exists>r. parse_selectors_loop cat bits symbol_map p0 is_add is_remove new_syms h = Inr r"
proof (induction "length p0" arbitrary: p0 is_add is_remove new_syms h rule: less_induct)
  case less
  note unf = parse_selectors_loop_unfold[of cat bits symbol_map p0 is_add is_remove new_syms h]
  show ?case
  proof (cases "next_clause bits p0 is_add is_remove")
    case Break
    with unf show ?thesis by simp
  next
    case (Fail e)
    with unf show ?thesis by simp
  next
    case (Clause is_add1 is_remove1 tag rest)
    from apply_clause_total[OF cat less.prems(1,3,4,5), where ?is_add1.0 = is_add1
        and ?is_remove1.0 = is_remove1 and tag = tag]
    obtain is_add2 a h1 where
      ac: "apply_clause cat symbol_map is_add1 is_remove1 tag new_syms h = Inr (is_add2, a, h1)"
      by (metis prod_cases3)
    from apply_clause_frame[OF cat less.prems(1,2,3) des ac]
    have fr: "frame n0 h h1" and sc1: "scratch_ok n0 (Some a) h1" by simp_all
    have len: "length rest < length p0" by (rule next_clause_shorter[OF Clause])
    have live1: "\<And>t. desired_symbols symbol_map = Some t \<Longrightarrow> tables h1 t \<noteq> None"
      using fr des less.prems(4) by (auto simp: frame_def)
    have "\<exists>r. parse_selectors_loop cat bits symbol_map rest is_add2 is_remove1 (Some a) h1 = Inr r"
      by (rule less.hyps[OF len frame_heap_ok[OF fr] frame_next_addr[OF fr less.prems(2)] sc1 live1])
        simp_all
    with unf Clause ac show ?thesis by simp
  qed
qed

lemma parse_selectors_total:
  assumes cat: "has_sentinel cat" and ok: "heap_ok h" and mok: "map_ok symbol_map h"
    and init: "desired_symbols symbol_map \<noteq> None"
  shows "\<exists>result err symbol_map' h'.
           parse_selectors cat bits symbol_map selectors h = Inr (result, err, symbol_map', h')"
proof -
  from init obtain t where t: "desired_symbols symbol_map = Some t" by auto
  have des: "\<And>t. desired_symbols symbol_map = Some t \<Longrightarrow> t < next_addr h"
    by (rule map_ok_desired_less[OF ok mok])
  have live: "\<And>t. desired_symbols symbol_map = Some t \<Longrightarrow> tables h t \<noteq> None"
    using mok by (auto simp: map_ok_def)
  have sc: "scratch_ok (next_addr h) None h" by (simp add: scratch_ok_def)
  from parse_selectors_loop_total[OF cat des ok le_refl sc live, where bits = bits
      and ?p0.0 = selectors and is_add = False and is_remove = False] init
  obtain err new_syms h1 where
    loop: "parse_selectors_loop cat bits symbol_map selectors False False None h = Inr (err, new_syms, h1)"
    by (metis prod_cases3)
  from parse_selectors_loop_frame[OF cat des ok le_refl sc loop]
  have fr: "frame (next_addr h) h h1" and sc1: "scratch_ok (next_addr h) new_syms h1" by simp_all
  from fr des[OF t] live[OF t] have t1: "tables h1 t \<noteq> None" by (auto simp: frame_def)
  show ?thesis
  proof (cases err)
    case None
    with loop t t1 show ?thesis
      by (auto simp: parse_selectors_def g_hash_table_unref_def)
  next
    case (Some e)
    with loop sc1 show ?thesis
      by (cases new_syms) (auto simp: parse_selectors_def g_hash_table_unref_def scratch_ok_def)
  qed
qed

subsection \<open>Clauses at the head of a string\<close>

lemma next_clause_separators:
  "set p0 \<subseteq> set '' ,'' \<Longrightarrow> next_clause bits p0 is_add is_remove = Break"
proof -
  assume a: "set p0 \<subseteq> set '' ,''"
  then have "takeWhile (\<lambda>ch. ch \<in> set '' ,'') p0 = p0"
    by (intro takeWhile_eq_all_conv[THEN iffD2]) auto
  then have "strspn p0 '' ,'' = length p0" by (simp only: strspn_def)
  then have "drop (strspn p0 '' ,'') p0 = []" by simp
  then show ?thesis by (simp add: next_clause_def)
qed

lemma strspn_prefix:
  assumes "set pre \<subseteq> set accept" and "rest = [] \<or> hd rest \<notin> set accept"
  shows "strspn (pre @ rest) accept = length pre"
proof -
  from assms(2) have "takeWhile (\<lambda>ch. ch \<in> set accept) rest = []" by (cases rest) auto
  with assms(1) show ?thesis by (simp add: strspn_def takeWhile_append2 subset_iff)
qed

lemma next_clause_signed:
  assumes sep: "set sep \<subseteq> set '' ,''" and sign: "sign = CHR ''+'' \<or> sign = CHR ''-''"
    and sp: "set sp \<subseteq> set '' ''" and w: "w \<noteq> []" "set w \<subseteq> set ascii_letters"
    and rest: "rest = [] \<or> hd rest \<notin> set ascii_letters"
    and tag: "parse_symbol_tag bits w (length w) = Inr tag"
  shows "next_clause bits (sep @ [sign] @ sp @ w @ rest) is_add is_remove =
           Clause (sign = CHR ''+'') (sign = CHR ''-'') tag rest"
proof -
  let ?p0 = "sep @ [sign] @ sp @ w @ rest"
  have hw: "hd w \<in> set ascii_letters" using w by (cases w) auto
  then have hw': "hd w \<noteq> CHR '' ''" by (auto simp: ascii_letters_def)
  have s1: "strspn ?p0 '' ,'' = length sep"
    using sign by (intro strspn_prefix[OF sep]) auto
  have p1: "drop (strspn ?p0 '' ,'') ?p0 = sign # sp @ w @ rest"
    unfolding s1 by simp
  have s2: "strspn (sp @ w @ rest) '' '' = length sp"
    using w hw' by (intro strspn_prefix[OF sp]) (cases w, auto)
  have s3: "strspn (w @ rest) ascii_letters = length w"
    by (rule strspn_prefix[OF w(2) rest])
  have pst: "parse_symbol_tag bits (w @ rest) (length w) = Inr tag"
    by (simp add: parse_symbol_tag_slice tag)
  have wne: "w @ rest \<noteq> []" "length w \<noteq> 0" using w by simp_all
  from sign show ?thesis
  proof
    assume "sign = CHR ''+''"
    then show ?thesis
      unfolding next_clause_def Let_def p1
      by (simp add: s2 s3 pst wne w)
  next
    assume "sign = CHR ''-''"
    then show ?thesis
      unfolding next_clause_def Let_def p1
      by (simp add: s2 s3 pst wne w)
  qed
qed

text \<open>The two runs on the small catalogue that the theorems below are checked on.\<close>

lemma example_bl0ck:
  "parse_selectors example_symbols example_bits example_map ''bl0ck'' example_heap =
     Inr (True, Some syntax_error, example_map,
          \<lparr>tables = [0 \<mapsto> {1}], arrays = Map.empty, next_addr = 2\<rparr>)"
proof -
  have nc1: "next_clause example_bits ''bl0ck'' False False = Clause False False 8 ''0ck''"
    by (simp add: next_clause_def strspn_def ascii_letters_def parse_symbol_tag_def SymMapping_map_def
        TOLOWER_def ISUPPER_def deref_def)
  have nc2: "next_clause example_bits ''0ck'' True False = Fail syntax_error"
    by (simp add: next_clause_def strspn_def ascii_letters_def)
  show ?thesis
    apply (simp add: parse_selectors_def)
    apply (subst parse_selectors_loop_unfold)
    apply (simp add: nc1 apply_clause_reset_none[OF example_has_sentinel])
    apply (subst parse_selectors_loop_unfold)
    apply (simp add: nc2 g_hash_table_unref_def example_heap_def)
    done
qed


lemma example_parse_block: "parse_symbol_tag example_bits ''block'' 5 = Inr 8"
  by (simp add: parse_symbol_tag_def SymMapping_map_def TOLOWER_def ISUPPER_def deref_def)

lemma parse_selectors_loop_end:
  "parse_selectors_loop cat bits symbol_map [] is_add is_remove new_syms h = Inr (None, new_syms, h)"
  by (subst parse_selectors_loop_unfold) (simp add: next_clause_def)

lemma example_add_space:
  "chafa_symbol_map_add_by_tags example_symbols chafa_symbol_map_init
      (example_bits CHAFA_SYMBOL_TAG_SPACE) \<lparr>tables = Map.empty, arrays = Map.empty, next_addr = 0\<rparr> =
     Inr (example_map, example_heap)"
  by (simp add: chafa_symbol_map_add_by_tags_def chafa_symbol_map_init_def g_hash_table_new_def
     add_by_tags_result[OF example_has_sentinel, where S = "{}"] example_matching_space example_map_def example_heap_def)






subsection \<open>Sorting and the derived index\<close>









lemma iter_set: "finite S \<Longrightarrow> set (g_hash_table_iter S) = S"
  by (simp add: g_hash_table_iter_def)



lemma n_entries_le: "n_entries cat \<le> length cat"
  by (simp add: n_entries_def length_takeWhile_le)

lemma valid_selection_finite: "valid_selection cat S \<Longrightarrow> finite S"
  by (auto simp: valid_selection_def intro: finite_subset[of S "{..<n_entries cat}"])

lemma valid_selection_entries_matching: "valid_selection cat (entries_matching cat tags)"
  by (simp add: valid_selection_def entries_matching_def n_entries_def)


text \<open>What \<^verbatim>\<open>rebuild_symbols\<close> returns.\<close>

lemma rebuild_symbols_result:
  assumes ok: "heap_ok h" and mok: "map_ok symbol_map h"
    and sel: "selection symbol_map h = Some S" and valid: "valid_selection cat S"
  shows "\<exists>h1. g_free (symbols symbol_map) h = Inr h1 \<and>
           arrays h1 (next_addr h) = None \<and> tables h1 = tables h \<and> next_addr h1 = next_addr h \<and>
           (\<forall>b. symbols symbol_map \<noteq> Some b \<longrightarrow> arrays h1 b = arrays h b) \<and>
           rebuild_symbols cat symbol_map h =
             Inr (symbol_map\<lparr>n_symbols := card S, symbols := Some (next_addr h), need_rebuild := False\<rparr>,
                  h1\<lparr>arrays := (arrays h1)(next_addr h \<mapsto>
                         qsort (map (\<lambda>i. cat ! i) (g_hash_table_iter S)) @ [\<lparr>c = 0, sc = 0\<rparr>]),
                     next_addr := Suc (next_addr h)\<rparr>)"
proof -
  have fin: "finite S" by (rule valid_selection_finite[OF valid])
  from mok obtain h1 where h1: "g_free (symbols symbol_map) h = Inr h1"
    and h1': "h1 = (case symbols symbol_map of None \<Rightarrow> h | Some b \<Rightarrow> h\<lparr>arrays := (arrays h)(b := None)\<rparr>)"
    by (auto simp: g_free_def map_ok_def split: option.splits)
  have fr: "arrays h1 (next_addr h) = None"
    using heap_ok_fresh_array[OF ok] by (auto simp: h1' split: option.splits)
  have same: "tables h1 = tables h" "next_addr h1 = next_addr h"
    by (auto simp: h1' split: option.splits)
  have oth: "\<forall>b. symbols symbol_map \<noteq> Some b \<longrightarrow> arrays h1 b = arrays h b"
    by (auto simp: h1' split: option.splits)
  have inb: "\<not> (\<exists>src_index \<in> set (g_hash_table_iter S). length cat \<le> src_index)"
    using valid n_entries_le[of cat] by (auto simp: iter_set[OF fin] valid_selection_def)
  have "rebuild_symbols cat symbol_map h =
             Inr (symbol_map\<lparr>n_symbols := card S, symbols := Some (next_addr h), need_rebuild := False\<rparr>,
                  h1\<lparr>arrays := (arrays h1)(next_addr h \<mapsto>
                         qsort (map (\<lambda>i. cat ! i) (g_hash_table_iter S)) @ [\<lparr>c = 0, sc = 0\<rparr>]),
                     next_addr := Suc (next_addr h)\<rparr>)"
  proof (cases "desired_symbols symbol_map")
    case None
    with sel have "S = {}" by (simp add: selection_def)
    with None h1 same show ?thesis
      by (simp add: rebuild_symbols_def g_hash_table_size_def g_new_array_def g_hash_table_iter_def
          qsort_def)
  next
    case (Some t)
    with sel have "tables h t = Some S" by (simp add: selection_def)
    with Some h1 same inb show ?thesis
      by (simp add: rebuild_symbols_def g_hash_table_size_def g_new_array_def)
  qed
  with h1 fr same oth show ?thesis by blast
qed

text \<open>
  With distinct code points the array does not depend on the order in which the keys are
  iterated, nor on what \<^verbatim>\<open>qsort\<close> does with equal keys: a list of the selected entries
  that is sorted by code point is the one \<^verbatim>\<open>rebuild_symbols\<close> stores.
\<close>

lemma sorted_index_unique:
  assumes "set xs = set ys" and "sorted (map c xs)" and "sorted (map c ys)"
    and "distinct (map c xs)" and "distinct (map c ys)"
  shows "xs = ys"
proof -
  have "set (map c xs) = set (map c ys)" using assms(1) by simp
  with assms(2-5) have eq: "map c xs = map c ys"
    by (intro sorted_distinct_set_unique) simp_all
  have "inj_on c (set xs)" using assms(4) by (simp add: distinct_map)
  with assms(1) have "inj_on c (set xs \<union> set ys)" by simp
  with eq show ?thesis by (simp add: inj_on_map_eq_map)
qed


subsection \<open>Adding by tags\<close>

lemma chafa_symbol_map_add_by_tags_table:
  assumes "has_sentinel cat" "refs symbol_map > 0" "desired_symbols symbol_map = Some t"
    "tables h t = Some S"
  shows "chafa_symbol_map_add_by_tags cat symbol_map tags h =
     Inr (symbol_map\<lparr>desired_symbols := Some t, need_rebuild := True\<rparr>,
          h\<lparr>tables := (tables h)(t \<mapsto> S \<union> entries_matching cat tags)\<rparr>)"
  using assms add_by_tags_result[OF assms(1,4), of tags]
  by (simp add: chafa_symbol_map_add_by_tags_def)

lemma chafa_symbol_map_add_by_tags_null:
  assumes "has_sentinel cat" "refs symbol_map > 0" "desired_symbols symbol_map = None"
  shows "chafa_symbol_map_add_by_tags cat symbol_map tags h =
     Inr (symbol_map\<lparr>desired_symbols := Some (next_addr h), need_rebuild := True\<rparr>,
          h\<lparr>tables := (tables h)(next_addr h \<mapsto> entries_matching cat tags),
            next_addr := Suc (next_addr h)\<rparr>)"
proof -
  let ?h1 = "h\<lparr>tables := (tables h)(next_addr h \<mapsto> {}), next_addr := Suc (next_addr h)\<rparr>"
  have "add_by_tags cat (next_addr h) tags ?h1 =
      Inr (?h1\<lparr>tables := (tables ?h1)(next_addr h \<mapsto> {} \<union> entries_matching cat tags)\<rparr>)"
    by (rule add_by_tags_result[OF assms(1)]) simp
  with assms show ?thesis
    by (simp add: chafa_symbol_map_add_by_tags_def g_hash_table_new_def)
qed





subsection \<open>What the operations preserve\<close>

text \<open>
  A well-formed heap whose tables hold indices of catalogue entries, and a symbol map
  well formed in it, stay so under every operation of the library that returns. So the
  selection \<^verbatim>\<open>rebuild_symbols\<close> reads is a set of indices of catalogue entries whenever the
  map was built from \<^verbatim>\<open>chafa_symbol_map_init\<close> by these operations.
\<close>

lemma parse_selectors_well_formed:
  assumes cat: "has_sentinel cat" and ok: "heap_ok h" and mok: "map_ok symbol_map h"
    and tv: "tables_valid cat h"
    and run: "parse_selectors cat bits symbol_map selectors h = Inr (result, err, symbol_map', h')"
  shows "heap_ok h' \<and> map_ok symbol_map' h' \<and> tables_valid cat h'"
proof -
  have des: "\<And>t. desired_symbols symbol_map = Some t \<Longrightarrow> t < next_addr h"
    by (rule map_ok_desired_less[OF ok mok])
  have sc: "scratch_ok (next_addr h) None h" by (simp add: scratch_ok_def)
  from run obtain err1 new_syms h1 where
    loop: "parse_selectors_loop cat bits symbol_map selectors False False None h = Inr (err1, new_syms, h1)"
    by (auto simp: parse_selectors_def split: sum.splits)
  from parse_selectors_loop_frame[OF cat des ok le_refl sc loop] tv
  have fr: "frame (next_addr h) h h1" and sc1: "scratch_ok (next_addr h) new_syms h1"
    and tv1: "tables_valid cat h1" by simp_all
  have ok1: "heap_ok h1" by (rule frame_heap_ok[OF fr])
  have free: "\<And>a. heap_ok (h1\<lparr>tables := (tables h1)(a := None)\<rparr>) \<and>
                   tables_valid cat (h1\<lparr>tables := (tables h1)(a := None)\<rparr>)"
    using heap_ok_free_table[OF ok1] tv1 by (simp add: tables_valid_def)
  have arr: "arrays h1 = arrays h" using fr by (simp add: frame_def)
  have old: "\<And>t. desired_symbols symbol_map = Some t \<Longrightarrow> tables h1 t = tables h t \<and> tables h t \<noteq> None"
    using fr des mok by (auto simp: frame_def map_ok_def)
  show ?thesis
  proof (cases err1)
    case (Some e)
    show ?thesis
    proof (cases new_syms)
      case None
      with run loop Some have "h' = h1" "symbol_map' = symbol_map"
        by (simp_all add: parse_selectors_def)
      with ok1 tv1 mok arr old show ?thesis
        by (auto simp: map_ok_def split: option.splits)
    next
      case (Some a)
      with sc1 have a: "next_addr h \<le> a" "tables h1 a \<noteq> None" by (simp_all add: scratch_ok_def)
      with run loop \<open>err1 = Some e\<close> Some
      have r: "h' = h1\<lparr>tables := (tables h1)(a := None)\<rparr>" "symbol_map' = symbol_map"
        by (auto simp: parse_selectors_def g_hash_table_unref_def)
      have "map_ok symbol_map h'" using mok arr old des a
        by (auto simp: map_ok_def r split: option.splits)
      with free[of a] show ?thesis by (simp add: r)
    qed
  next
    case None
    show ?thesis
    proof (cases "desired_symbols symbol_map")
      case dn: None
      with run loop None have r: "h' = h1"
        "symbol_map' = symbol_map\<lparr>desired_symbols := new_syms, need_rebuild := True\<rparr>"
        by (simp_all add: parse_selectors_def)
      have "map_ok symbol_map' h'" using mok arr sc1
        by (auto simp: map_ok_def r scratch_ok_def split: option.splits)
      with ok1 tv1 show ?thesis by (simp add: r)
    next
      case ds: (Some t)
      from old[OF ds] have "tables h1 t \<noteq> None" by simp
      with run loop None ds have r: "h' = h1\<lparr>tables := (tables h1)(t := None)\<rparr>"
        "symbol_map' = symbol_map\<lparr>desired_symbols := new_syms, need_rebuild := True\<rparr>"
        by (auto simp: parse_selectors_def g_hash_table_unref_def)
      have "map_ok symbol_map' h'" using mok arr sc1 des[OF ds]
        by (auto simp: map_ok_def r scratch_ok_def split: option.splits)
      with free[of t] show ?thesis by (simp add: r)
    qed
  qed
qed

lemma apply_selectors_well_formed:
  assumes "has_sentinel cat" "heap_ok h" "map_ok symbol_map h" "tables_valid cat h"
    and "chafa_symbol_map_apply_selectors cat bits symbol_map selectors h =
           Inr (result, err, symbol_map', h')"
  shows "heap_ok h' \<and> map_ok symbol_map' h' \<and> tables_valid cat h'"
proof (cases "refs symbol_map > 0")
  case True
  with assms(5) have "parse_selectors cat bits symbol_map selectors h = Inr (result, err, symbol_map', h')"
    by (simp add: chafa_symbol_map_apply_selectors_def)
  from parse_selectors_well_formed[OF assms(1-4) this] show ?thesis .
next
  case False
  with assms show ?thesis by (simp add: chafa_symbol_map_apply_selectors_def)
qed

lemma add_by_tags_well_formed:
  assumes cat: "has_sentinel cat" and ok: "heap_ok h" and mok: "map_ok symbol_map h"
    and tv: "tables_valid cat h"
    and run: "chafa_symbol_map_add_by_tags cat symbol_map tags h = Inr (symbol_map', h')"
  shows "heap_ok h' \<and> map_ok symbol_map' h' \<and> tables_valid cat h'"
proof (cases "refs symbol_map > 0")
  case False
  with assms show ?thesis by (simp add: chafa_symbol_map_add_by_tags_def)
next
  case True
  show ?thesis
  proof (cases "desired_symbols symbol_map")
    case None
    from run[unfolded chafa_symbol_map_add_by_tags_null[OF cat True None]]
    have r: "symbol_map' = symbol_map\<lparr>desired_symbols := Some (next_addr h), need_rebuild := True\<rparr>"
      "h' = h\<lparr>tables := (tables h)(next_addr h \<mapsto> entries_matching cat tags),
            next_addr := Suc (next_addr h)\<rparr>" by simp_all
    have "heap_ok h'" unfolding r
      by (rule heap_ok_new_table[OF ok]) (simp add: finite_entries_matching)
    moreover have "map_ok symbol_map' h'" using mok
      by (auto simp: map_ok_def r split: option.splits)
    moreover have "tables_valid cat h'" using tv
      by (auto simp: tables_valid_def r valid_selection_def dest: entries_matching_less
          split: if_splits)
    ultimately show ?thesis by simp
  next
    case (Some t)
    with mok obtain S where S: "tables h t = Some S" by (auto simp: map_ok_def)
    from run[unfolded chafa_symbol_map_add_by_tags_table[OF cat True Some S]]
    have r: "symbol_map' = symbol_map\<lparr>desired_symbols := Some t, need_rebuild := True\<rparr>"
      "h' = h\<lparr>tables := (tables h)(t \<mapsto> S \<union> entries_matching cat tags)\<rparr>" by simp_all
    have "heap_ok h'" unfolding r
      by (rule heap_ok_set_table[OF ok S])
         (simp add: heap_ok_finite[OF ok S] finite_entries_matching)
    moreover have "map_ok symbol_map' h'" using mok
      by (auto simp: map_ok_def r split: option.splits)
    moreover have "tables_valid cat h'" using tv S
      by (auto simp: tables_valid_def r valid_selection_def dest: entries_matching_less
          split: if_splits)
    ultimately show ?thesis by simp
  qed
qed

lemma init_well_formed:
  "map_ok chafa_symbol_map_init h"
  by (simp add: map_ok_def chafa_symbol_map_init_def)

lemma well_formed_selection:
  "map_ok symbol_map h \<Longrightarrow> tables_valid cat h \<Longrightarrow>
   \<exists>S. selection symbol_map h = Some S \<and> valid_selection cat S"
  by (auto simp: map_ok_def tables_valid_def selection_def valid_selection_def split: option.splits)


lemma remove_by_tags_well_formed:
  assumes cat: "has_sentinel cat" and ok: "heap_ok h" and mok: "map_ok symbol_map h"
    and tv: "tables_valid cat h"
    and run: "chafa_symbol_map_remove_by_tags cat symbol_map tags h = Inr (symbol_map', h')"
  shows "heap_ok h' \<and> map_ok symbol_map' h' \<and> tables_valid cat h'"
proof (cases "refs symbol_map > 0")
  case False
  with assms show ?thesis by (simp add: chafa_symbol_map_remove_by_tags_def)
next
  case True
  show ?thesis
  proof (cases "desired_symbols symbol_map")
    case None
    let ?h1 = "h\<lparr>tables := (tables h)(next_addr h \<mapsto> {}), next_addr := Suc (next_addr h)\<rparr>"
    have "remove_by_tags cat (next_addr h) tags ?h1 =
        Inr (?h1\<lparr>tables := (tables ?h1)(next_addr h \<mapsto> {} - entries_matching cat tags)\<rparr>)"
      by (rule remove_by_tags_result[OF cat]) simp
    with run True None
    have r: "symbol_map' = symbol_map\<lparr>desired_symbols := Some (next_addr h), need_rebuild := True\<rparr>"
      "h' = h\<lparr>tables := (tables h)(next_addr h \<mapsto> {}), next_addr := Suc (next_addr h)\<rparr>"
      by (auto simp: chafa_symbol_map_remove_by_tags_def g_hash_table_new_def)
    have "heap_ok h'" unfolding r
      by (rule heap_ok_new_table[OF ok]) simp
    moreover have "map_ok symbol_map' h'" using mok
      by (auto simp: map_ok_def r split: option.splits)
    moreover have "tables_valid cat h'" using tv
      by (auto simp: tables_valid_def r valid_selection_def split: if_splits)
    ultimately show ?thesis by simp
  next
    case (Some t)
    with mok obtain S where S: "tables h t = Some S" by (auto simp: map_ok_def)
    from run True Some remove_by_tags_result[OF cat S, of tags]
    have r: "symbol_map' = symbol_map\<lparr>desired_symbols := Some t, need_rebuild := True\<rparr>"
      "h' = h\<lparr>tables := (tables h)(t \<mapsto> S - entries_matching cat tags)\<rparr>"
      by (simp_all add: chafa_symbol_map_remove_by_tags_def)
    have "heap_ok h'" unfolding r
      by (rule heap_ok_set_table[OF ok S]) (simp add: heap_ok_finite[OF ok S])
    moreover have "map_ok symbol_map' h'" using mok
      by (auto simp: map_ok_def r split: option.splits)
    moreover have "tables_valid cat h'" using tv S
      by (auto simp: tables_valid_def r valid_selection_def split: if_splits)
    ultimately show ?thesis by simp
  qed
qed

lemma copy_contents_well_formed:
  assumes ok: "heap_ok h" and mok: "map_ok src h" and tv: "tables_valid cat h"
    and run: "chafa_symbol_map_copy_contents src h = Inr (dest', h')"
  shows "heap_ok h' \<and> map_ok dest' h' \<and> tables_valid cat h'"
proof (cases "desired_symbols src")
  case None
  with run have "dest' = src\<lparr>symbols := None, need_rebuild := True, refs := 1\<rparr>" "h' = h"
    by (simp_all add: chafa_symbol_map_copy_contents_def)
  with ok tv None show ?thesis by (simp add: map_ok_def)
next
  case (Some t)
  with mok obtain S where S: "tables h t = Some S" by (auto simp: map_ok_def)
  have "t \<noteq> next_addr h" using heap_ok_live_less[OF ok S] by simp
  from run Some copy_hash_table_result[OF S heap_ok_finite[OF ok S] this]
  have r: "dest' = src\<lparr>desired_symbols := Some (next_addr h), symbols := None,
                       need_rebuild := True, refs := 1\<rparr>"
    "h' = h\<lparr>tables := (tables h)(next_addr h \<mapsto> S), next_addr := Suc (next_addr h)\<rparr>"
    by (simp_all add: chafa_symbol_map_copy_contents_def)
  have "heap_ok h'" unfolding r
    by (rule heap_ok_new_table[OF ok]) (rule heap_ok_finite[OF ok S])
  moreover have "map_ok dest' h'" by (simp add: map_ok_def r)
  moreover have "tables_valid cat h'" using tv S
    by (auto simp: tables_valid_def r split: if_splits)
  ultimately show ?thesis by simp
qed

lemma prepare_well_formed:
  assumes ok: "heap_ok h" and mok: "map_ok symbol_map h" and tv: "tables_valid cat h"
    and run: "chafa_symbol_map_prepare cat symbol_map h = Inr (symbol_map', h')"
  shows "heap_ok h' \<and> map_ok symbol_map' h' \<and> tables_valid cat h'"
proof (cases "need_rebuild symbol_map")
  case False
  with assms show ?thesis by (simp add: chafa_symbol_map_prepare_def)
next
  case True
  from well_formed_selection[OF mok tv] obtain S where
    sel: "selection symbol_map h = Some S" and valid: "valid_selection cat S" by auto
  from rebuild_symbols_result[OF ok mok sel valid] run True
  obtain h1 xs where h1: "tables h1 = tables h" "next_addr h1 = next_addr h"
    "\<forall>b. symbols symbol_map \<noteq> Some b \<longrightarrow> arrays h1 b = arrays h b"
    "g_free (symbols symbol_map) h = Inr h1"
    and r: "symbol_map' = symbol_map\<lparr>n_symbols := card S, symbols := Some (next_addr h),
                                     need_rebuild := False\<rparr>"
    "h' = h1\<lparr>arrays := (arrays h1)(next_addr h \<mapsto> xs), next_addr := Suc (next_addr h)\<rparr>"
    by (auto simp: chafa_symbol_map_prepare_def)
  have dom: "dom (arrays h1) \<subseteq> dom (arrays h)"
    using h1(4) by (auto simp: g_free_def split: option.splits if_splits)
  have "heap_ok h'" using ok dom h1(1,2)
    by (auto simp: heap_ok_def r less_Suc_eq split: if_splits)
  moreover have "map_ok symbol_map' h'" using mok h1(1)
    by (auto simp: map_ok_def r split: option.splits)
  moreover have "tables_valid cat h'" using tv h1(1)
    by (simp add: tables_valid_def r)
  ultimately show ?thesis by simp
qed

section \<open>The claims\<close>




text \<open>
  C2. The tag lookup is meant to accept the fifteen names of the vocabulary, in any letter
  case, and nothing else. \<^verbatim>\<open>parse_symbol_tag\<close> compares only the first \<open>len\<close> bytes of
  each table name with the slice and never looks at the length of the table name, so a
  slice that is a proper prefix of a name is accepted as that name: \<open>bl\<close> is looked up as
  \<open>block\<close>, and \<open>s\<close> as \<open>space\<close>, the first name of the table that starts with it. A
  whole name is accepted in any case, and a slice that is no prefix of a name is refused.
\<close>

theorem parse_symbol_tag_accepts_prefix:
  "parse_symbol_tag bits ''bl'' 2 = Inr (bits CHAFA_SYMBOL_TAG_BLOCK) \<and>
   parse_symbol_tag bits ''s'' 1 = Inr (bits CHAFA_SYMBOL_TAG_SPACE) \<and>
   parse_symbol_tag bits ''block'' 5 = Inr (bits CHAFA_SYMBOL_TAG_BLOCK) \<and>
   parse_symbol_tag bits ''BLock'' 5 = Inr (bits CHAFA_SYMBOL_TAG_BLOCK) \<and>
   parse_symbol_tag bits ''blocks'' 6 =
     Inl (G_OPTION_ERROR_BAD_VALUE (''Unrecognized symbol tag '' @ [CHR 0x27] @ ''blocks'' @ [CHR 0x27] @ ''.''))"
  by (simp add: parse_symbol_tag_def SymMapping_map_def TOLOWER_def ISUPPER_def deref_def)




text \<open>
  C4. Whenever \<^verbatim>\<open>parse_selectors\<close> ends with an error set (an unrecognized tag, or no
  tag name where one must stand), the symbol map is the one it was called with, dirty
  flag and table pointer included, its selection is the same set, and every table and
  array that existed before the call has its old contents: nothing of the clauses parsed
  before the error has been applied.
\<close>

theorem parse_selectors_error_leaves_map:
  assumes "has_sentinel cat" and "heap_ok h" and "map_ok symbol_map h"
    and "parse_selectors cat bits symbol_map selectors h = Inr (result, Some e, symbol_map', h')"
  shows "symbol_map' = symbol_map \<and>
         need_rebuild symbol_map' = need_rebuild symbol_map \<and>
         selection symbol_map' h' = selection symbol_map h \<and>
         (\<forall>a. a < next_addr h \<longrightarrow> tables h' a = tables h a) \<and>
         arrays h' = arrays h"
proof -
  from parse_selectors_error_frame[OF assms]
  have m: "symbol_map' = symbol_map" and fr: "frame (next_addr h) h h'" by simp_all
  from frame_selection[OF fr assms(2,3)] m fr show ?thesis
    by (simp add: frame_def)
qed

theorem parse_selectors_error_leaves_map_witness:
  "has_sentinel example_symbols \<and> heap_ok example_heap \<and> map_ok example_map example_heap \<and>
   parse_selectors example_symbols example_bits example_map ''bl0ck'' example_heap =
     Inr (True, Some syntax_error, example_map,
          \<lparr>tables = [0 \<mapsto> {1}], arrays = Map.empty, next_addr = 2\<rparr>) \<and>
   selection example_map \<lparr>tables = [0 \<mapsto> {1}], arrays = Map.empty, next_addr = 2\<rparr> =
     selection example_map example_heap"
  using parse_selectors_error_leaves_map[OF example_has_sentinel example_heap_ok example_map_ok
      example_bl0ck]
    example_has_sentinel example_heap_ok example_map_ok example_bl0ck
  by blast

text \<open>
  C5. On a map whose selection is the set of catalogue indices matching SPACE, the
  selector string \<open>+block,border-dot,stipple\<close> is accepted and leaves the selection
  (SPACE \<open>\<union>\<close> BLOCK \<open>\<union>\<close> BORDER) \<open>-\<close> (DOT \<open>\<union>\<close> STIPPLE), in a new table, with the map marked
  for a rebuild.
\<close>

theorem apply_selectors_add_then_remove:
  assumes cat: "has_sentinel cat" and ok: "heap_ok h" and refs: "refs symbol_map > 0"
    and t: "desired_symbols symbol_map = Some t"
    and S: "tables h t = Some (entries_matching cat (bits CHAFA_SYMBOL_TAG_SPACE))"
  shows "\<exists>symbol_map' h'.
           chafa_symbol_map_apply_selectors cat bits symbol_map ''+block,border-dot,stipple'' h =
             Inr (True, None, symbol_map', h') \<and>
           need_rebuild symbol_map' \<and>
           selection symbol_map' h' =
             Some ((entries_matching cat (bits CHAFA_SYMBOL_TAG_SPACE) \<union>
                    entries_matching cat (bits CHAFA_SYMBOL_TAG_BLOCK) \<union>
                    entries_matching cat (bits CHAFA_SYMBOL_TAG_BORDER)) -
                   (entries_matching cat (bits CHAFA_SYMBOL_TAG_DOT) \<union>
                    entries_matching cat (bits CHAFA_SYMBOL_TAG_STIPPLE)))"
proof -
  let ?S = "entries_matching cat (bits CHAFA_SYMBOL_TAG_SPACE)"
  let ?B = "entries_matching cat (bits CHAFA_SYMBOL_TAG_BLOCK)"
  let ?Bo = "entries_matching cat (bits CHAFA_SYMBOL_TAG_BORDER)"
  let ?D = "entries_matching cat (bits CHAFA_SYMBOL_TAG_DOT)"
  let ?St = "entries_matching cat (bits CHAFA_SYMBOL_TAG_STIPPLE)"
  let ?a = "next_addr h"
  let ?h1 = "h\<lparr>tables := (tables h)(?a \<mapsto> ?S \<union> ?B), next_addr := Suc ?a\<rparr>"
  let ?h2 = "?h1\<lparr>tables := (tables ?h1)(?a \<mapsto> ?S \<union> ?B \<union> ?Bo)\<rparr>"
  let ?h3 = "?h2\<lparr>tables := (tables ?h2)(?a \<mapsto> ?S \<union> ?B \<union> ?Bo - ?D)\<rparr>"
  let ?h4 = "?h3\<lparr>tables := (tables ?h3)(?a \<mapsto> ?S \<union> ?B \<union> ?Bo - ?D - ?St)\<rparr>"
  note ev = next_clause_def strspn_def ascii_letters_def parse_symbol_tag_def SymMapping_map_def
        TOLOWER_def ISUPPER_def deref_def
  have nc1: "next_clause bits ''+block,border-dot,stipple'' False False =
      Clause True False (bits CHAFA_SYMBOL_TAG_BLOCK) '',border-dot,stipple''"
    by (simp add: ev)
  have nc2: "next_clause bits '',border-dot,stipple'' True False =
      Clause True False (bits CHAFA_SYMBOL_TAG_BORDER) ''-dot,stipple''"
    by (simp add: ev)
  have nc3: "next_clause bits ''-dot,stipple'' True False =
      Clause False True (bits CHAFA_SYMBOL_TAG_DOT) '',stipple''"
    by (simp add: ev)
  have nc4: "next_clause bits '',stipple'' False True =
      Clause False True (bits CHAFA_SYMBOL_TAG_STIPPLE) []"
    by (simp add: ev)
  have a1: "apply_clause cat symbol_map True False (bits CHAFA_SYMBOL_TAG_BLOCK) None h =
      Inr (True, ?a, ?h1)"
    by (rule apply_clause_add_copy[OF cat ok t S])
  have a2: "apply_clause cat symbol_map True False (bits CHAFA_SYMBOL_TAG_BORDER) (Some ?a) ?h1 =
      Inr (True, ?a, ?h2)"
    by (rule apply_clause_add_scratch[OF cat]) simp
  have a3: "apply_clause cat symbol_map False True (bits CHAFA_SYMBOL_TAG_DOT) (Some ?a) ?h2 =
      Inr (False, ?a, ?h3)"
    by (rule apply_clause_remove_scratch[OF cat]) simp
  have a4: "apply_clause cat symbol_map False True (bits CHAFA_SYMBOL_TAG_STIPPLE) (Some ?a) ?h3 =
      Inr (False, ?a, ?h4)"
    by (rule apply_clause_remove_scratch[OF cat]) simp
  have l4: "parse_selectors_loop cat bits symbol_map '',stipple'' False True (Some ?a) ?h3 =
      Inr (None, Some ?a, ?h4)"
    by (subst parse_selectors_loop_unfold) (simp only: nc4 clause.case a4 sum.case prod.case
        parse_selectors_loop_end)
  have l3: "parse_selectors_loop cat bits symbol_map ''-dot,stipple'' True False (Some ?a) ?h2 =
      Inr (None, Some ?a, ?h4)"
    by (subst parse_selectors_loop_unfold) (simp only: nc3 clause.case a3 sum.case prod.case l4)
  have l2: "parse_selectors_loop cat bits symbol_map '',border-dot,stipple'' True False (Some ?a) ?h1 =
      Inr (None, Some ?a, ?h4)"
    by (subst parse_selectors_loop_unfold) (simp only: nc2 clause.case a2 sum.case prod.case l3)
  have l1: "parse_selectors_loop cat bits symbol_map ''+block,border-dot,stipple'' False False None h =
      Inr (None, Some ?a, ?h4)"
    by (subst parse_selectors_loop_unfold) (simp only: nc1 clause.case a1 sum.case prod.case l2)
  have ne: "t \<noteq> ?a" using heap_ok_live_less[OF ok S] by simp
  have t4: "tables ?h4 t = Some ?S" using ne S by simp
  have run: "chafa_symbol_map_apply_selectors cat bits symbol_map ''+block,border-dot,stipple'' h =
     Inr (True, None, symbol_map\<lparr>desired_symbols := Some ?a, need_rebuild := True\<rparr>,
          ?h4\<lparr>tables := (tables ?h4)(t := None)\<rparr>)"
    using refs t t4
    by (simp only: chafa_symbol_map_apply_selectors_def parse_selectors_def l1 g_hash_table_unref_def)
       simp
  have sel: "selection (symbol_map\<lparr>desired_symbols := Some ?a, need_rebuild := True\<rparr>)
          (?h4\<lparr>tables := (tables ?h4)(t := None)\<rparr>) = Some (?S \<union> ?B \<union> ?Bo - ?D - ?St)"
    using ne by (simp add: selection_def)
  have "?S \<union> ?B \<union> ?Bo - ?D - ?St = (?S \<union> ?B \<union> ?Bo) - (?D \<union> ?St)" by auto
  with run sel show ?thesis by (intro exI conjI) (assumption, simp, simp)
qed

theorem apply_selectors_add_then_remove_witness:
  "has_sentinel example_symbols \<and> heap_ok example_heap \<and> refs example_map > 0 \<and>
   desired_symbols example_map = Some 0 \<and>
   tables example_heap 0 = Some (entries_matching example_symbols (example_bits CHAFA_SYMBOL_TAG_SPACE)) \<and>
   chafa_symbol_map_add_by_tags example_symbols chafa_symbol_map_init
      (example_bits CHAFA_SYMBOL_TAG_SPACE) \<lparr>tables = Map.empty, arrays = Map.empty, next_addr = 0\<rparr> =
     Inr (example_map, example_heap) \<and>
   (\<exists>symbol_map' h'.
      chafa_symbol_map_apply_selectors example_symbols example_bits example_map
          ''+block,border-dot,stipple'' example_heap =
        Inr (True, None, symbol_map', h') \<and>
      need_rebuild symbol_map' \<and>
      selection symbol_map' h' =
        Some ((entries_matching example_symbols (example_bits CHAFA_SYMBOL_TAG_SPACE) \<union>
               entries_matching example_symbols (example_bits CHAFA_SYMBOL_TAG_BLOCK) \<union>
               entries_matching example_symbols (example_bits CHAFA_SYMBOL_TAG_BORDER)) -
              (entries_matching example_symbols (example_bits CHAFA_SYMBOL_TAG_DOT) \<union>
               entries_matching example_symbols (example_bits CHAFA_SYMBOL_TAG_STIPPLE))))"
proof -
  have r: "refs example_map > 0" and d: "desired_symbols example_map = Some 0"
    by (simp_all add: example_map_def chafa_symbol_map_init_def)
  have S: "tables example_heap 0 =
      Some (entries_matching example_symbols (example_bits CHAFA_SYMBOL_TAG_SPACE))"
    by (simp add: example_heap_def example_matching_space)
  from apply_selectors_add_then_remove[where bits = example_bits, OF example_has_sentinel
      example_heap_ok r d S]
    r d S example_has_sentinel example_heap_ok example_add_space
  show ?thesis by blast
qed







text \<open>
  C9. \<^verbatim>\<open>chafa_symbol_map_apply_selectors\<close> returns for every selector string when the
  map has a selection table. On a map whose table pointer is still NULL, as
  \<^verbatim>\<open>chafa_symbol_map_init\<close> leaves it, a string whose first clause carries a sign and
  names a tag makes \<^verbatim>\<open>parse_selectors\<close> call \<^verbatim>\<open>copy_hash_table (NULL)\<close>, which is
  outside the function's defined domain.
\<close>

theorem apply_selectors_defined_when_initialized:
  assumes "has_sentinel cat" and "heap_ok h" and "map_ok symbol_map h"
  shows "(desired_symbols symbol_map \<noteq> None \<longrightarrow>
            (\<exists>result err symbol_map' h'.
               chafa_symbol_map_apply_selectors cat bits symbol_map selectors h =
                 Inr (result, err, symbol_map', h'))) \<and>
         (desired_symbols symbol_map = None \<and> refs symbol_map > 0 \<and>
          set sep \<subseteq> set '' ,'' \<and> (sign = CHR ''+'' \<or> sign = CHR ''-'') \<and> set sp \<subseteq> set '' '' \<and>
          w \<noteq> [] \<and> set w \<subseteq> set ascii_letters \<and> (rest = [] \<or> hd rest \<notin> set ascii_letters) \<and>
          parse_symbol_tag bits w (length w) = Inr tag \<longrightarrow>
            chafa_symbol_map_apply_selectors cat bits symbol_map (sep @ [sign] @ sp @ w @ rest) h =
              Inl NullPointer)"
proof (intro conjI impI)
  assume "desired_symbols symbol_map \<noteq> None"
  from parse_selectors_total[OF assms this, of bits selectors]
  show "\<exists>result err symbol_map' h'.
               chafa_symbol_map_apply_selectors cat bits symbol_map selectors h =
                 Inr (result, err, symbol_map', h')"
    by (auto simp add: chafa_symbol_map_apply_selectors_def)
next
  assume a: "desired_symbols symbol_map = None \<and> refs symbol_map > 0 \<and>
          set sep \<subseteq> set '' ,'' \<and> (sign = CHR ''+'' \<or> sign = CHR ''-'') \<and> set sp \<subseteq> set '' '' \<and>
          w \<noteq> [] \<and> set w \<subseteq> set ascii_letters \<and> (rest = [] \<or> hd rest \<notin> set ascii_letters) \<and>
          parse_symbol_tag bits w (length w) = Inr tag"
  then have nc: "next_clause bits (sep @ [sign] @ sp @ w @ rest) False False =
           Clause (sign = CHR ''+'') (sign = CHR ''-'') tag rest"
    by (intro next_clause_signed) simp_all
  from a have "apply_clause cat symbol_map (sign = CHR ''+'') (sign = CHR ''-'') tag None h = Inl NullPointer"
    by (intro apply_clause_null_copy) auto
  with nc have "parse_selectors_loop cat bits symbol_map (sep @ [sign] @ sp @ w @ rest) False False None h
      = Inl NullPointer"
    by (subst parse_selectors_loop_unfold) simp
  with a show "chafa_symbol_map_apply_selectors cat bits symbol_map (sep @ [sign] @ sp @ w @ rest) h =
              Inl NullPointer"
    by (simp add: chafa_symbol_map_apply_selectors_def parse_selectors_def)
qed

theorem apply_selectors_defined_when_initialized_witness:
  "has_sentinel example_symbols \<and> heap_ok example_heap \<and> map_ok example_map example_heap \<and>
   desired_symbols example_map \<noteq> None \<and>
   (\<exists>result err symbol_map' h'.
      chafa_symbol_map_apply_selectors example_symbols example_bits example_map ''+block'' example_heap =
        Inr (result, err, symbol_map', h')) \<and>
   map_ok chafa_symbol_map_init example_heap \<and>
   desired_symbols chafa_symbol_map_init = None \<and> refs chafa_symbol_map_init > 0 \<and>
   parse_symbol_tag example_bits ''block'' (length ''block'') = Inr 8 \<and>
   chafa_symbol_map_apply_selectors example_symbols example_bits chafa_symbol_map_init
       ([] @ [CHR ''+''] @ [] @ ''block'' @ []) example_heap = Inl NullPointer"
proof -
  have d: "desired_symbols example_map \<noteq> None"
    by (simp add: example_map_def chafa_symbol_map_init_def)
  have i: "map_ok chafa_symbol_map_init example_heap"
    "desired_symbols chafa_symbol_map_init = None" "refs chafa_symbol_map_init > 0"
    by (simp_all add: chafa_symbol_map_init_def map_ok_def)
  have len: "length ''block'' = 5" by simp
  have p: "parse_symbol_tag example_bits ''block'' (length ''block'') = Inr 8"
    by (simp only: len example_parse_block)
  have l: "set ''block'' \<subseteq> set ascii_letters" by (simp add: ascii_letters_def)
  from apply_selectors_defined_when_initialized[OF example_has_sentinel example_heap_ok example_map_ok,
      where bits = example_bits and selectors = "''+block''"] d
  have 1: "\<exists>result err symbol_map' h'.
      chafa_symbol_map_apply_selectors example_symbols example_bits example_map ''+block'' example_heap =
        Inr (result, err, symbol_map', h')"
    by blast
  from apply_selectors_defined_when_initialized[OF example_has_sentinel example_heap_ok i(1),
      where sep = "[]" and sign = "CHR ''+''" and sp = "[]" and w = "''block''" and rest = "[]"
        and bits = example_bits and tag = 8] i(2,3) p l
  have 2: "chafa_symbol_map_apply_selectors example_symbols example_bits chafa_symbol_map_init
       ([] @ [CHR ''+''] @ [] @ ''block'' @ []) example_heap = Inl NullPointer"
    by simp
  from 1 2 d i p example_has_sentinel example_heap_ok example_map_ok show ?thesis
    by blast
qed

text \<open>
  C10. A selector string with no clause in it (empty, or made of spaces and commas only)
  is accepted: the map's table is released, its table pointer becomes NULL, which is the
  empty selection, and the map is marked for a rebuild.
\<close>

theorem apply_selectors_without_clause_clears:
  assumes "set selectors \<subseteq> set '' ,''" and "refs symbol_map > 0" and "map_ok symbol_map h"
  shows "\<exists>h'. chafa_symbol_map_apply_selectors cat bits symbol_map selectors h =
           Inr (True, None, symbol_map\<lparr>desired_symbols := None, need_rebuild := True\<rparr>, h') \<and>
         selection (symbol_map\<lparr>desired_symbols := None, need_rebuild := True\<rparr>) h' = Some {} \<and>
         h' = (case desired_symbols symbol_map of
                 None \<Rightarrow> h
               | Some t \<Rightarrow> h\<lparr>tables := (tables h)(t := None)\<rparr>)"
proof -
  have "parse_selectors_loop cat bits symbol_map selectors False False None h = Inr (None, None, h)"
    by (subst parse_selectors_loop_unfold) (simp add: next_clause_separators[OF assms(1)])
  with assms(2,3) show ?thesis
    by (auto simp: chafa_symbol_map_apply_selectors_def parse_selectors_def selection_def
        g_hash_table_unref_def map_ok_def split: option.splits)
qed

theorem apply_selectors_without_clause_clears_witness:
  "set '', ,'' \<subseteq> set '' ,'' \<and> refs example_map > 0 \<and> map_ok example_map example_heap \<and>
   (\<exists>h'. chafa_symbol_map_apply_selectors example_symbols example_bits example_map '', ,'' example_heap =
           Inr (True, None, example_map\<lparr>desired_symbols := None, need_rebuild := True\<rparr>, h') \<and>
         selection (example_map\<lparr>desired_symbols := None, need_rebuild := True\<rparr>) h' = Some {} \<and>
         h' = (case desired_symbols example_map of
                 None \<Rightarrow> example_heap
               | Some t \<Rightarrow> example_heap\<lparr>tables := (tables example_heap)(t := None)\<rparr>)) \<and>
   selection example_map example_heap = Some {1}"
proof -
  have s: "set '', ,'' \<subseteq> set '' ,''" by simp
  have r: "refs example_map > 0" by (simp add: example_map_def chafa_symbol_map_init_def)
  have e: "selection example_map example_heap = Some {1}"
    by (simp add: selection_def example_map_def example_heap_def)
  from apply_selectors_without_clause_clears[OF s r example_map_ok, where cat = example_symbols
      and bits = example_bits]
    s r e example_map_ok
  show ?thesis by blast
qed

end
